theory Spec2Isabelle
  imports Complex_Main "HOL-Library.Char_ord" "HOL-Library.List_Lexorder"
begin

section \<open>The data manager of ActivityNetVideoCaptioning (data\_manager.py)\<close>

text \<open>
  The class \<^verbatim>\<open>DataManager\<close> keeps three stores (captions, frame paths, key frames), three
  index-aligned corpus sequences (features, captions, frame paths) and answers
  k-nearest-neighbour queries by a linear scan with a working set of size k.

  Conventions of the embedding.
  \<^item> A Python float is a \<^typ>\<open>real\<close>: arithmetic is exact, there is no rounding, and a
    field of a feature file that parses to \<^verbatim>\<open>nan\<close> or \<^verbatim>\<open>inf\<close> is not
    represented. A Euclidean distance is a \<open>distance\<close>, a finite real or \<open>Infinity\<close>:
    \<^verbatim>\<open>np.inf\<close> is the start of the Euclidean working set, and the norm of a difference
    whose sum of squares exceeds the largest double overflows to it.
  \<^item> A numpy vector is a list, a 2-d array is a list of rows. A list of rows may be
    ragged where an array cannot; the library calls reject such shapes with \<open>ValueError\<close>.
  \<^item> An exception is a value of the type \<open>error\<close>. A method that assigns to
    \<^verbatim>\<open>self\<close> returns the state it leaves behind, also when it raises.
  \<^item> \<^verbatim>\<open>np.argsort\<close> is the stable insertion sort of indices by key. numpy promises a
    sorting permutation and no more for its default kind; no theorem below that is stated for
    all inputs depends on the order it gives to equal keys.
\<close>

subsection \<open>Exceptions\<close>

text \<open>A \<open>KeyError\<close> carries the key that was missing; the three dictionaries that the
  assembly reads have keys of three shapes.\<close>

datatype key =
    CaptionKey string int
  | SegmentKey string
  | FrameKey string nat

datatype error =
    AssertionError
  | ValueError
  | IndexError
  | KeyError key

subsection \<open>The state of a DataManager\<close>

record data_manager =
  video_seg_id_to_caption :: "string \<times> int \<rightharpoonup> string"
  video_seg_frame_path :: "string \<times> int \<rightharpoonup> string"
  features :: "real list list"
  captions :: "string list"
  raw_captions :: "string list"
  frame_paths :: "string list"
  video_seg_feature_path :: "string \<rightharpoonup> string"
  key_frames :: "string \<rightharpoonup> int set"

text \<open>\<^verbatim>\<open>__init__\<close>: every store and every sequence is empty.\<close>

definition init :: data_manager where
  "init = \<lparr> video_seg_id_to_caption = Map.empty, video_seg_frame_path = Map.empty,
            features = [], captions = [], raw_captions = [], frame_paths = [],
            video_seg_feature_path = Map.empty, key_frames = Map.empty \<rparr>"

subsection \<open>Python and numpy primitives\<close>

text \<open>\<^verbatim>\<open>xs[i]\<close> on a Python list: a negative index counts from the end, an index out of
  range raises \<open>IndexError\<close>.\<close>

definition py_index :: "'a list \<Rightarrow> int \<Rightarrow> error + 'a" where
  "py_index xs i =
     (if 0 \<le> i \<and> i < int (length xs) then Inr (xs ! nat i)
      else if i < 0 \<and> - int (length xs) \<le> i then Inr (xs ! nat (int (length xs) + i))
      else Inl IndexError)"

text \<open>\<^verbatim>\<open>[xs[idx] for idx in idxs]\<close>: the first failing lookup ends the comprehension.\<close>

fun py_gather :: "'a list \<Rightarrow> int list \<Rightarrow> error + 'a list" where
  "py_gather xs [] = Inr []"
| "py_gather xs (i # rest) =
     (case py_index xs i of
        Inl e \<Rightarrow> Inl e
      | Inr v \<Rightarrow> (case py_gather xs rest of Inl e \<Rightarrow> Inl e | Inr vs \<Rightarrow> Inr (v # vs)))"

text \<open>The position of the first occurrence of a value (the length when there is none).\<close>

fun first_index :: "'a list \<Rightarrow> 'a \<Rightarrow> nat" where
  "first_index [] v = 0"
| "first_index (x # xs) v = (if x = v then 0 else Suc (first_index xs v))"

text \<open>\<^verbatim>\<open>np.argmin\<close> and \<^verbatim>\<open>np.argmax\<close>: the first index of the least (greatest) entry;
  \<open>ValueError\<close> on an empty array.\<close>

definition np_argmin :: "'a::linorder list \<Rightarrow> error + nat" where
  "np_argmin xs = (if xs = [] then Inl ValueError else Inr (first_index xs (Min (set xs))))"

definition np_argmax :: "'a::linorder list \<Rightarrow> error + nat" where
  "np_argmax xs = (if xs = [] then Inl ValueError else Inr (first_index xs (Max (set xs))))"

text \<open>\<^verbatim>\<open>np.argsort\<close>: the indices of the array, sorted by the entry they point to.\<close>

definition np_argsort :: "'a::linorder list \<Rightarrow> nat list" where
  "np_argsort xs = sort_key (\<lambda>i. xs ! i) [0..<length xs]"

text \<open>\<^verbatim>\<open>a[idxs]\<close>, indexing an array by an array of valid indices.\<close>

definition np_take :: "'a list \<Rightarrow> nat list \<Rightarrow> 'a list" where
  "np_take xs idxs = map (\<lambda>i. xs ! i) idxs"

text \<open>\<^verbatim>\<open>np.dot\<close> of two vectors: \<open>ValueError\<close> unless they have the same length.\<close>

definition np_dot :: "real list \<Rightarrow> real list \<Rightarrow> error + real" where
  "np_dot a b =
     (if length a = length b then Inr (\<Sum>(x, y)\<leftarrow>zip a b. x * y) else Inl ValueError)"

text \<open>The sum of the squares of a vector and its L2 norm.\<close>

definition sum_squares :: "real list \<Rightarrow> real" where
  "sum_squares v = (\<Sum>x\<leftarrow>v. x * x)"

definition l2_norm :: "real list \<Rightarrow> real" where
  "l2_norm v = sqrt (sum_squares v)"

text \<open>\<^verbatim>\<open>sklearn.preprocessing.normalize(X, axis=1)\<close> with the default L2 norm. The input
  check wants a 2-d array with at least one row and one column; each row is divided by its
  norm, a norm of zero counting as one. The result is a new array.\<close>

definition is_2d_array :: "real list list \<Rightarrow> bool" where
  "is_2d_array X \<longleftrightarrow> X \<noteq> [] \<and> hd X \<noteq> [] \<and> list_all (\<lambda>r. length r = length (hd X)) X"

definition normalize_row :: "real list \<Rightarrow> real list" where
  "normalize_row v = (let n = l2_norm v in map (\<lambda>x. x / (if n = 0 then 1 else n)) v)"

definition normalize :: "real list list \<Rightarrow> error + real list list" where
  "normalize X = (if is_2d_array X then Inr (map normalize_row X) else Inl ValueError)"

text \<open>\<^verbatim>\<open>feature - query_feature\<close> for a vector and a row of a 2-d array, with numpy's
  broadcasting: equal lengths subtract pointwise, a length of one stretches, anything else
  is a \<open>ValueError\<close>.\<close>

definition broadcast_sub :: "real list \<Rightarrow> real list \<Rightarrow> error + real list" where
  "broadcast_sub a b =
     (if length a = length b then Inr (map (\<lambda>(x, y). x - y) (zip a b))
      else if length b = 1 then Inr (map (\<lambda>x. x - hd b) a)
      else if length a = 1 then Inr (map (\<lambda>y. hd a - y) b)
      else Inl ValueError)"

fun np_sub :: "real list \<Rightarrow> real list list \<Rightarrow> error + real list list" where
  "np_sub a [] = Inr []"
| "np_sub a (r # rs) =
     (case broadcast_sub a r of
        Inl e \<Rightarrow> Inl e
      | Inr d \<Rightarrow> (case np_sub a rs of Inl e \<Rightarrow> Inl e | Inr ds \<Rightarrow> Inr (d # ds)))"

subsection \<open>Distances with infinity\<close>

text \<open>The Euclidean working set starts at \<^verbatim>\<open>np.inf\<close>; every other entry is finite.\<close>

datatype distance = Finite real | Infinity

instantiation distance :: linorder
begin

fun less_eq_distance :: "distance \<Rightarrow> distance \<Rightarrow> bool" where
  "less_eq_distance (Finite a) (Finite b) = (a \<le> b)"
| "less_eq_distance _ Infinity = True"
| "less_eq_distance Infinity (Finite _) = False"

definition less_distance :: "distance \<Rightarrow> distance \<Rightarrow> bool" where
  "less_distance x y \<longleftrightarrow> x \<le> y \<and> \<not> y \<le> x"

instance
proof
  fix x y z :: distance
  show "(x < y) = (x \<le> y \<and> \<not> y \<le> x)" by (simp add: less_distance_def)
  show "x \<le> x" by (cases x) simp_all
  show "x \<le> y \<Longrightarrow> y \<le> z \<Longrightarrow> x \<le> z" by (cases x; cases y; cases z) simp_all
  show "x \<le> y \<Longrightarrow> y \<le> x \<Longrightarrow> x = y" by (cases x; cases y) simp_all
  show "x \<le> y \<or> y \<le> x" by (cases x; cases y) auto
qed

end

text \<open>The largest finite double.\<close>

definition float_max :: real where
  "float_max = 2 ^ 1024 - 2 ^ 971"

text \<open>\<^verbatim>\<open>np.linalg.norm\<close> of a 2-d array: the Frobenius norm, the square root of the sum
  of the squares. When that sum is beyond the largest double the result is \<^verbatim>\<open>inf\<close>.\<close>

definition np_linalg_norm :: "real list list \<Rightarrow> distance" where
  "np_linalg_norm M =
     (let sq = (\<Sum>r\<leftarrow>M. sum_squares r)
      in if sq > float_max then Infinity else Finite (sqrt sq))"

subsection \<open>The cosine query\<close>

text \<open>The loop of \<^verbatim>\<open>query_knn_caption_brutal_force_cosine_similarity\<close> over
  \<^verbatim>\<open>enumerate(self.features)\<close>. The working set is the pair of arrays
  \<^verbatim>\<open>(k_max_similarities, k_best_indices)\<close>.\<close>

fun cosine_scan ::
  "real list \<Rightarrow> (nat \<times> real list) list \<Rightarrow> real list \<times> int list \<Rightarrow> error + real list \<times> int list"
where
  "cosine_scan query_feature [] w = Inr w"
| "cosine_scan query_feature ((i, feature) # rest) (k_max_similarities, k_best_indices) =
     (case np_dot feature query_feature of
        Inl e \<Rightarrow> Inl e
      | Inr similarity \<Rightarrow>
          if \<not> similarity \<ge> - (101 / 100) then Inl AssertionError
          else if \<not> similarity \<le> 101 / 100 then Inl AssertionError
          else
            (case np_argmin k_max_similarities of
               Inl e \<Rightarrow> Inl e
             | Inr idx_min \<Rightarrow>
                 if similarity > k_max_similarities ! idx_min
                 then cosine_scan query_feature rest
                        (k_max_similarities[idx_min := similarity],
                         k_best_indices[idx_min := int i])
                 else cosine_scan query_feature rest (k_max_similarities, k_best_indices)))"

text \<open>The whole method. \<^verbatim>\<open>[-1.] * k\<close> is empty for \<open>k \<le> 0\<close>. The method assigns nothing
  to \<^verbatim>\<open>self\<close>, so the state it returns is the state it was given.\<close>

definition query_knn_caption_brutal_force_cosine_similarity ::
  "data_manager \<Rightarrow> real list list \<Rightarrow> int \<Rightarrow>
     (error + string list \<times> string list \<times> real list) \<times> data_manager"
where
  "query_knn_caption_brutal_force_cosine_similarity s query_feature k =
     ((case normalize query_feature of
         Inl e \<Rightarrow> Inl e
       | Inr normalized \<Rightarrow>
           (case cosine_scan (hd normalized) (enumerate 0 (features s))
                   (replicate (nat k) (- 1), replicate (nat k) (- 1)) of
              Inl e \<Rightarrow> Inl e
            | Inr (k_max_similarities, k_best_indices) \<Rightarrow>
                let args_sort = rev (np_argsort k_max_similarities);
                    k_max_similarities = np_take k_max_similarities args_sort;
                    k_best_indices = np_take k_best_indices args_sort
                in (case py_gather (captions s) k_best_indices of
                      Inl e \<Rightarrow> Inl e
                    | Inr cs \<Rightarrow>
                        (case py_gather (frame_paths s) k_best_indices of
                           Inl e \<Rightarrow> Inl e
                         | Inr ps \<Rightarrow> Inr (cs, ps, k_max_similarities))))), s)"

text \<open>The similarity that the scan computes for a record: its dot product with the first
  row of the normalized query.\<close>

definition cosine_similarity :: "real list list \<Rightarrow> real list \<Rightarrow> real" where
  "cosine_similarity query_feature feature =
     (\<Sum>(x, y)\<leftarrow>zip feature (normalize_row (hd query_feature)). x * y)"

subsection \<open>The Euclidean query\<close>

text \<open>The loop of \<^verbatim>\<open>query_knn_caption_brutal_force_euclidean_distance\<close>. The query is
  the 2-d array that the cosine query takes; nothing is normalized.\<close>

fun euclidean_scan ::
  "real list list \<Rightarrow> (nat \<times> real list) list \<Rightarrow> distance list \<times> int list \<Rightarrow>
     error + distance list \<times> int list"
where
  "euclidean_scan query_feature [] w = Inr w"
| "euclidean_scan query_feature ((i, feature) # rest) (k_min_distances, k_best_indices) =
     (case np_sub feature query_feature of
        Inl e \<Rightarrow> Inl e
      | Inr diff \<Rightarrow>
          let dist = np_linalg_norm diff in
          (case np_argmax k_min_distances of
             Inl e \<Rightarrow> Inl e
           | Inr idx_max \<Rightarrow>
               if dist < k_min_distances ! idx_max
               then euclidean_scan query_feature rest
                      (k_min_distances[idx_max := dist], k_best_indices[idx_max := int i])
               else euclidean_scan query_feature rest (k_min_distances, k_best_indices)))"

definition query_knn_caption_brutal_force_euclidean_distance ::
  "data_manager \<Rightarrow> real list list \<Rightarrow> int \<Rightarrow>
     (error + string list \<times> string list \<times> distance list) \<times> data_manager"
where
  "query_knn_caption_brutal_force_euclidean_distance s query_feature k =
     ((case euclidean_scan query_feature (enumerate 0 (features s))
              (replicate (nat k) Infinity, replicate (nat k) (- 1)) of
         Inl e \<Rightarrow> Inl e
       | Inr (k_min_distances, k_best_indices) \<Rightarrow>
           let args_sort = np_argsort k_min_distances;
               k_min_distances = np_take k_min_distances args_sort;
               k_best_indices = np_take k_best_indices args_sort
           in (case py_gather (captions s) k_best_indices of
                 Inl e \<Rightarrow> Inl e
               | Inr cs \<Rightarrow>
                   (case py_gather (frame_paths s) k_best_indices of
                      Inl e \<Rightarrow> Inl e
                    | Inr ps \<Rightarrow> Inr (cs, ps, k_min_distances)))), s)"

text \<open>The distance that the scan computes for a record whose shape fits the query.\<close>

definition euclidean_distance :: "real list list \<Rightarrow> real list \<Rightarrow> distance" where
  "euclidean_distance query_feature feature =
     (case np_sub feature query_feature of Inl e \<Rightarrow> Infinity | Inr diff \<Rightarrow> np_linalg_norm diff)"

subsection \<open>What a working set holds\<close>


definition euclidean_working_set ::
  "(nat \<Rightarrow> distance) \<Rightarrow> nat \<Rightarrow> distance list \<Rightarrow> int list \<Rightarrow> bool"
where
  "euclidean_working_set D j ds idxs \<longleftrightarrow>
     ds \<noteq> [] \<and> length idxs = length ds \<and>
     (\<forall>p<length ds. (ds ! p = Infinity \<and> idxs ! p = - 1) \<or>
        (0 \<le> idxs ! p \<and> nat (idxs ! p) < j \<and> ds ! p = D (nat (idxs ! p)) \<and>
         ds ! p \<noteq> Infinity)) \<and>
     (\<forall>p<length ds. \<forall>r<length ds. 0 \<le> idxs ! p \<and> idxs ! p = idxs ! r \<longrightarrow> p = r) \<and>
     (\<forall>i<j. int i \<notin> set idxs \<longrightarrow> (\<forall>x\<in>set ds. x \<le> D i))"

subsection \<open>Corpus normalization\<close>

text \<open>\<^verbatim>\<open>normalize_features\<close>: when the library call raises, nothing has been assigned.\<close>

definition normalize_features :: "data_manager \<Rightarrow> error option \<times> data_manager" where
  "normalize_features s =
     (case normalize (features s) of
        Inl e \<Rightarrow> (Some e, s)
      | Inr X \<Rightarrow> (None, s\<lparr>features := X\<rparr>))"

subsection \<open>Corpus assembly\<close>

text \<open>
  The feature folder as \<^verbatim>\<open>os.walk\<close> presents it: a sequence of directories, each with its
  root and its files. A file is its name and its lines; a line is the vector it parses to, or
  \<open>None\<close> when some field is not a float (\<^verbatim>\<open>float(item)\<close> then raises \<open>ValueError\<close>).
\<close>

type_synonym line = "real list option"
type_synonym feature_file = "string \<times> line list"
type_synonym directory = "string \<times> feature_file list"

definition endswith :: "string \<Rightarrow> string \<Rightarrow> bool" where
  "endswith str suffix \<longleftrightarrow>
     length suffix \<le> length str \<and> drop (length str - length suffix) str = suffix"

definition path_join :: "string \<Rightarrow> string \<Rightarrow> string" where
  "path_join root_dir file =
     (if root_dir = [] \<or> last root_dir = CHR ''/'' then root_dir @ file
      else root_dir @ ''/'' @ file)"

text \<open>\<^verbatim>\<open>int(str)\<close> on a string: surrounding whitespace is dropped, one sign is allowed,
  then decimal digits and nothing else.\<close>

definition is_space :: "char \<Rightarrow> bool" where
  "is_space c \<longleftrightarrow> c \<in> set [CHR '' '', CHR 0x09, CHR 0x0A, CHR 0x0B, CHR 0x0C, CHR 0x0D]"

definition strip :: "string \<Rightarrow> string" where
  "strip str = rev (dropWhile is_space (rev (dropWhile is_space str)))"

definition is_digit :: "char \<Rightarrow> bool" where
  "is_digit c \<longleftrightarrow> c \<in> set ''0123456789''"

definition digits_value :: "string \<Rightarrow> nat" where
  "digits_value ds = foldl (\<lambda>acc c. 10 * acc + (of_char c - of_char CHR ''0'')) 0 ds"

definition py_int :: "string \<Rightarrow> int option" where
  "py_int str =
     (let t = strip str;
          negative = (t \<noteq> [] \<and> hd t = CHR ''-'');
          ds = (if t \<noteq> [] \<and> (hd t = CHR ''-'' \<or> hd t = CHR ''+'') then tl t else t)
      in if ds \<noteq> [] \<and> list_all is_digit ds
         then Some (if negative then - int (digits_value ds) else int (digits_value ds))
         else None)"

text \<open>The fixed-length-prefix rule of \<^verbatim>\<open>load_features\<close>: the name of a segment is thirteen
  characters of video name followed by the segment number.\<close>

definition decompose :: "string \<Rightarrow> error + string \<times> int" where
  "decompose video_segment_name =
     (if \<not> length video_segment_name \<ge> 14 then Inl AssertionError
      else (case py_int (drop 13 video_segment_name) of
              None \<Rightarrow> Inl ValueError
            | Some segment_id \<Rightarrow> Inr (take 13 video_segment_name, segment_id)))"

text \<open>The loop over the lines of one feature file, \<open>count\<close> being the number of the line.
  The feature and the caption are appended before the frame path is looked up.\<close>

fun load_lines ::
  "data_manager \<Rightarrow> string \<Rightarrow> string \<Rightarrow> int set \<Rightarrow> nat \<Rightarrow> line list \<Rightarrow>
     error option \<times> data_manager"
where
  "load_lines s video_segment_name caption kf count [] = (None, s)"
| "load_lines s video_segment_name caption kf count (l # ls) =
     (if int count \<in> kf then
        (case l of
           None \<Rightarrow> (Some ValueError, s)
         | Some feature \<Rightarrow>
             let s1 = s\<lparr>features := features s @ [feature]\<rparr>;
                 s2 = s1\<lparr>captions := captions s1 @ [caption]\<rparr>
             in (case video_seg_frame_path s2 (video_segment_name, int count) of
                   None \<Rightarrow> (Some (KeyError (FrameKey video_segment_name count)), s2)
                 | Some path \<Rightarrow>
                     load_lines (s2\<lparr>frame_paths := frame_paths s2 @ [path]\<rparr>)
                       video_segment_name caption kf (Suc count) ls))
      else load_lines s video_segment_name caption kf (Suc count) ls)"

text \<open>The body of the loop over the files of a directory.\<close>

definition load_file :: "data_manager \<Rightarrow> string \<Rightarrow> feature_file \<Rightarrow> error option \<times> data_manager"
where
  "load_file s root_dir f =
     (let file = fst f in
      if \<not> endswith file ''.txt'' then (None, s)
      else
        let file_path = path_join root_dir file;
            video_segment_name = take (length file - 4) file
        in (case decompose video_segment_name of
              Inl e \<Rightarrow> (Some e, s)
            | Inr (video_name, segment_id) \<Rightarrow>
                let s1 = s\<lparr>video_seg_feature_path :=
                            (video_seg_feature_path s)(video_segment_name \<mapsto> file_path)\<rparr>
                in (case video_seg_id_to_caption s1 (video_name, segment_id) of
                      None \<Rightarrow> (Some (KeyError (CaptionKey video_name segment_id)), s1)
                    | Some caption \<Rightarrow>
                        (case key_frames s1 video_segment_name of
                           None \<Rightarrow> (Some (KeyError (SegmentKey video_segment_name)), s1)
                         | Some kf \<Rightarrow>
                             load_lines s1 video_segment_name caption kf 0 (snd f)))))"

fun load_files ::
  "data_manager \<Rightarrow> string \<Rightarrow> feature_file list \<Rightarrow> error option \<times> data_manager"
where
  "load_files s root_dir [] = (None, s)"
| "load_files s root_dir (f # fs) =
     (case load_file s root_dir f of
        (Some e, s') \<Rightarrow> (Some e, s')
      | (None, s') \<Rightarrow> load_files s' root_dir fs)"

text \<open>The loop over the directories; the files of each are taken in the order of
  \<^verbatim>\<open>sorted(files)\<close>.\<close>

fun load_dirs :: "data_manager \<Rightarrow> directory list \<Rightarrow> error option \<times> data_manager" where
  "load_dirs s [] = (None, s)"
| "load_dirs s ((root_dir, files) # ds) =
     (case load_files s root_dir (sort_key fst files) of
        (Some e, s') \<Rightarrow> (Some e, s')
      | (None, s') \<Rightarrow> load_dirs s' ds)"

text \<open>\<^verbatim>\<open>np.array(self.features)\<close> keeps the rows and their order.\<close>

definition np_array :: "real list list \<Rightarrow> real list list" where
  "np_array rows = rows"

definition load_features :: "data_manager \<Rightarrow> directory list \<Rightarrow> error option \<times> data_manager"
where
  "load_features s feature_folder =
     (case load_dirs s feature_folder of
        (Some e, s') \<Rightarrow> (Some e, s')
      | (None, s') \<Rightarrow> (None, s'\<lparr>features := np_array (features s')\<rparr>))"

subsection \<open>The segments of a feature folder\<close>

text \<open>The name of the segment of a feature file is the file name without its last four
  characters (\<^verbatim>\<open>file[:-4]\<close>).\<close>

definition segment_name :: "string \<Rightarrow> string" where
  "segment_name file = take (length file - 4) file"

text \<open>The key frames of a segment (none when the store has no entry), and the numbers of
  the frames that have a row in the feature file: row \<open>i\<close> is frame \<open>i\<close>.\<close>

definition key_frame_set :: "data_manager \<Rightarrow> string \<Rightarrow> int set" where
  "key_frame_set s video_segment_name =
     (case key_frames s video_segment_name of None \<Rightarrow> {} | Some kf \<Rightarrow> kf)"

definition rows_with_vector :: "line list \<Rightarrow> int set" where
  "rows_with_vector ls = int ` {0..<length ls}"

text \<open>The segments that \<^verbatim>\<open>load_features\<close> visits, in the order of the visit, each with
  the lines of its file.\<close>

definition segments :: "directory list \<Rightarrow> (string \<times> line list) list" where
  "segments feature_folder =
     concat (map (\<lambda>(root_dir, files).
               map (\<lambda>f. (segment_name (fst f), snd f))
                 (filter (\<lambda>f. endswith (fst f) ''.txt'') (sort_key fst files)))
             feature_folder)"

text \<open>Two states with the same caption, frame path and key frame stores.\<close>

definition same_stores :: "data_manager \<Rightarrow> data_manager \<Rightarrow> bool" where
  "same_stores s s' \<longleftrightarrow>
     video_seg_id_to_caption s' = video_seg_id_to_caption s \<and>
     video_seg_frame_path s' = video_seg_frame_path s \<and>
     key_frames s' = key_frames s"

subsection \<open>Concrete corpora and stores\<close>

text \<open>A corpus of one record, and one of two unit vectors the first of which is opposite to
  the query \<open>[1, 0]\<close>.\<close>

definition corpus_one :: data_manager where
  "corpus_one = init\<lparr>features := [[1, 0]], captions := [''a''], frame_paths := [''p'']\<rparr>"

definition corpus_opposite :: data_manager where
  "corpus_opposite =
     init\<lparr>features := [[- 1, 0], [0, 1]], captions := [''a'', ''b''],
          frame_paths := [''p'', ''q'']\<rparr>"

text \<open>Stores that know the caption and the key frame \<open>0\<close> of the segment
  \<^verbatim>\<open>v_abcdefghijk0\<close>, and no frame path at all.\<close>

definition stores_no_frame_path :: data_manager where
  "stores_no_frame_path =
     init\<lparr>video_seg_id_to_caption := [(''v_abcdefghijk'', 0) \<mapsto> ''a''],
          key_frames := [''v_abcdefghijk0'' \<mapsto> {0}]\<rparr>"

text \<open>Stores for the segment \<^verbatim>\<open>v_abcdefghijk0\<close> with the key frames \<open>0\<close> and \<open>2\<close>
  and a path for frame \<open>0\<close>.\<close>

definition stores_two_key_frames :: data_manager where
  "stores_two_key_frames =
     init\<lparr>video_seg_id_to_caption := [(''v_abcdefghijk'', 0) \<mapsto> ''a''],
          video_seg_frame_path :=
            [(''v_abcdefghijk0'', 0) \<mapsto> ''frames/v_abcdefghijk0/1.jpg''],
          key_frames := [''v_abcdefghijk0'' \<mapsto> {0, 2}]\<rparr>"

text \<open>Stores with a caption for segment \<open>0\<close> of the video and none for segment \<open>1\<close>,
  and a folder with a feature file for each.\<close>

definition stores_one_caption :: data_manager where
  "stores_one_caption =
     init\<lparr>video_seg_id_to_caption := [(''v_abcdefghijk'', 0) \<mapsto> ''a''],
          key_frames := [''v_abcdefghijk0'' \<mapsto> {}, ''v_abcdefghijk1'' \<mapsto> {0}]\<rparr>"

definition two_segment_folder :: "directory list" where
  "two_segment_folder =
     [(''features'',
       [(''v_abcdefghijk1.txt'', [Some [1, 2]]), (''v_abcdefghijk0.txt'', [Some [3, 4]])])]"

text \<open>The corpus of the scenario of the specification: three vectors of norm at most one.
  And a corpus that has not been normalized.\<close>

definition corpus_scenario :: data_manager where
  "corpus_scenario =
     init\<lparr>features := [[1, 0], [0, 1], [707 / 1000, 707 / 1000]],
          captions := [''a'', ''b'', ''c''], frame_paths := [''p'', ''q'', ''r'']\<rparr>"

definition corpus_raw :: data_manager where
  "corpus_raw = init\<lparr>features := [[2, 0]], captions := [''a''], frame_paths := [''p'']\<rparr>"

text \<open>Stores in which the segment \<^verbatim>\<open>v_abcdefghijk5\<close> has key frames and no caption.\<close>

definition stores_selector_only :: data_manager where
  "stores_selector_only = init\<lparr>key_frames := [''v_abcdefghijk5'' \<mapsto> {0}]\<rparr>"

section \<open>Properties\<close>

text \<open>The unfolding that evaluates the model on a concrete input.\<close>

lemmas query_eval =
  query_knn_caption_brutal_force_cosine_similarity_def
  query_knn_caption_brutal_force_euclidean_distance_def
  init_def normalize_def is_2d_array_def normalize_row_def l2_norm_def sum_squares_def
  np_dot_def np_argmin_def np_argmax_def np_argsort_def np_take_def py_index_def
  np_linalg_norm_def float_max_def broadcast_sub_def less_distance_def enumerate_eq_zip
  Let_def eval_nat_numeral

lemmas load_eval =
  init_def load_features_def load_file_def endswith_def path_join_def decompose_def
  py_int_def strip_def is_space_def is_digit_def digits_value_def np_array_def Let_def

subsection \<open>Assembly leaves the stores alone and counts the key frames that have a row\<close>

lemma same_stores_refl: "same_stores s s"
  by (simp add: same_stores_def)

lemma same_stores_trans: "same_stores a b \<Longrightarrow> same_stores b c \<Longrightarrow> same_stores a c"
  by (simp add: same_stores_def)

lemma load_lines_stores:
  "load_lines s n cap kf c ls = (r, s') \<Longrightarrow> same_stores s s'"
proof (induction ls arbitrary: s c)
  case Nil
  then show ?case by (simp add: same_stores_def)
next
  case (Cons l ls)
  show ?case
  proof (cases "int c \<in> kf")
    case False
    with Cons show ?thesis by simp
  next
    case True
    show ?thesis
    proof (cases l)
      case None
      with True Cons.prems show ?thesis by (simp add: same_stores_def)
    next
      case (Some feature)
      let ?s2 = "s\<lparr>features := features s @ [feature], captions := captions s @ [cap]\<rparr>"
      show ?thesis
      proof (cases "video_seg_frame_path s (n, int c)")
        case None
        with True Some Cons.prems show ?thesis by (auto simp: same_stores_def Let_def)
      next
        case (Some path)
        with True \<open>l = Some feature\<close> Cons.prems
        have "load_lines (?s2\<lparr>frame_paths := frame_paths s @ [path]\<rparr>) n cap kf (Suc c) ls = (r, s')"
          by (simp add: Let_def)
        from Cons.IH[OF this] show ?thesis by (simp add: same_stores_def)
      qed
    qed
  qed
qed

lemma load_lines_length:
  "load_lines s n cap kf c ls = (None, s') \<Longrightarrow>
   length (features s') = length (features s) + card (kf \<inter> int ` {c..<c + length ls})"
proof (induction ls arbitrary: s c)
  case Nil
  then show ?case by simp
next
  case (Cons l ls)
  have split: "int ` {c..<c + length (l # ls)} = insert (int c) (int ` {Suc c..<Suc c + length ls})"
    by (auto simp: image_iff)
  have fin: "finite (kf \<inter> int ` {Suc c..<Suc c + length ls})" by simp
  have notin: "int c \<notin> int ` {Suc c..<Suc c + length ls}" by auto
  show ?case
  proof (cases "int c \<in> kf")
    case False
    with Cons.prems have "load_lines s n cap kf (Suc c) ls = (None, s')" by simp
    from Cons.IH[OF this] False show ?thesis unfolding split by simp
  next
    case True
    from True Cons.prems obtain feature path where
      l: "l = Some feature" and p: "video_seg_frame_path s (n, int c) = Some path"
      by (auto simp: Let_def split: option.splits)
    with True Cons.prems
    have "load_lines (s\<lparr>features := features s @ [feature], captions := captions s @ [cap],
                       frame_paths := frame_paths s @ [path]\<rparr>) n cap kf (Suc c) ls = (None, s')"
      by (simp add: Let_def)
    from Cons.IH[OF this] True fin notin show ?thesis unfolding split by simp
  qed
qed

lemma load_file_stores: "load_file s root_dir f = (r, s') \<Longrightarrow> same_stores s s'"
  by (auto simp: load_file_def Let_def same_stores_def split: if_splits sum.splits option.splits prod.splits
      dest!: load_lines_stores)

lemma load_file_length:
  "load_file s root_dir f = (None, s') \<Longrightarrow>
   length (features s') = length (features s) +
     (if endswith (fst f) ''.txt''
      then card (key_frame_set s (segment_name (fst f)) \<inter> rows_with_vector (snd f)) else 0)"
  by (auto simp: load_file_def Let_def key_frame_set_def segment_name_def rows_with_vector_def
      split: if_splits sum.splits option.splits prod.splits dest!: load_lines_length)

lemma key_frame_set_same: "same_stores s s' \<Longrightarrow> key_frame_set s' = key_frame_set s"
  by (auto simp: same_stores_def key_frame_set_def fun_eq_iff)

lemma load_files_stores: "load_files s root_dir fs = (r, s') \<Longrightarrow> same_stores s s'"
proof (induction fs arbitrary: s)
  case Nil then show ?case by (simp add: same_stores_refl)
next
  case (Cons f fs)
  obtain r1 s1 where lf: "load_file s root_dir f = (r1, s1)" by (cases "load_file s root_dir f")
  show ?case
  proof (cases r1)
    case None
    with lf Cons.prems have "load_files s1 root_dir fs = (r, s')" by simp
    from Cons.IH[OF this] load_file_stores[OF lf] show ?thesis by (rule same_stores_trans[rotated])
  next
    case (Some e)
    with lf Cons.prems have "s' = s1" by simp
    with load_file_stores[OF lf] show ?thesis by simp
  qed
qed

lemma load_files_length:
  "load_files s root_dir fs = (None, s') \<Longrightarrow>
   length (features s') = length (features s) +
     (\<Sum>f\<leftarrow>filter (\<lambda>f. endswith (fst f) ''.txt'') fs.
        card (key_frame_set s (segment_name (fst f)) \<inter> rows_with_vector (snd f)))"
proof (induction fs arbitrary: s)
  case Nil then show ?case by simp
next
  case (Cons f fs)
  obtain r1 s1 where lf: "load_file s root_dir f = (r1, s1)" by (cases "load_file s root_dir f")
  with Cons.prems have r1: "r1 = None" and rest: "load_files s1 root_dir fs = (None, s')"
    by (auto split: option.splits)
  from lf r1 have lf': "load_file s root_dir f = (None, s1)" by simp
  have ks: "key_frame_set s1 = key_frame_set s"
    using load_file_stores[OF lf] by (rule key_frame_set_same)
  from Cons.IH[OF rest] load_file_length[OF lf'] ks show ?case by simp
qed

lemma load_dirs_stores: "load_dirs s ds = (r, s') \<Longrightarrow> same_stores s s'"
proof (induction ds arbitrary: s)
  case Nil then show ?case by (simp add: same_stores_refl)
next
  case (Cons d ds)
  obtain root_dir files where d: "d = (root_dir, files)" by (cases d)
  obtain r1 s1 where lf: "load_files s root_dir (sort_key fst files) = (r1, s1)"
    by (cases "load_files s root_dir (sort_key fst files)")
  show ?case
  proof (cases r1)
    case None
    with lf d Cons.prems have "load_dirs s1 ds = (r, s')" by simp
    from Cons.IH[OF this] load_files_stores[OF lf] show ?thesis by (rule same_stores_trans[rotated])
  next
    case (Some e)
    with lf d Cons.prems have "s' = s1" by simp
    with load_files_stores[OF lf] show ?thesis by simp
  qed
qed

lemma load_dirs_length:
  "load_dirs s ds = (None, s') \<Longrightarrow>
   length (features s') = length (features s) +
     (\<Sum>(name, ls)\<leftarrow>segments ds. card (key_frame_set s name \<inter> rows_with_vector ls))"
proof (induction ds arbitrary: s)
  case Nil then show ?case by (simp add: segments_def)
next
  case (Cons d ds)
  obtain root_dir files where d: "d = (root_dir, files)" by (cases d)
  obtain r1 s1 where lf: "load_files s root_dir (sort_key fst files) = (r1, s1)"
    by (cases "load_files s root_dir (sort_key fst files)")
  with d Cons.prems have r1: "r1 = None" and rest: "load_dirs s1 ds = (None, s')"
    by (auto split: option.splits)
  from lf r1 have lf': "load_files s root_dir (sort_key fst files) = (None, s1)" by simp
  have ks: "key_frame_set s1 = key_frame_set s"
    using load_files_stores[OF lf] by (rule key_frame_set_same)
  have seg: "segments (d # ds) =
      map (\<lambda>f. (segment_name (fst f), snd f))
        (filter (\<lambda>f. endswith (fst f) ''.txt'') (sort_key fst files)) @ segments ds"
    by (simp add: segments_def d)
  from Cons.IH[OF rest] load_files_length[OF lf'] ks show ?case
    unfolding seg by (simp add: comp_def case_prod_unfold)
qed

lemma load_features_stores: "load_features s ds = (r, s') \<Longrightarrow> same_stores s s'"
  by (auto simp: load_features_def same_stores_def split: prod.splits option.splits dest!: load_dirs_stores)

subsection \<open>Alignment of the three corpus sequences\<close>

text \<open>
  C3. The claim: at every observable point, also in the state that \<^verbatim>\<open>load_features\<close>
  leaves behind when a frame path is missing, the features, the captions and the frame paths
  have one length. The code appends the feature and the caption and only then looks the
  frame path up: for a segment with one feature row, key frame \<open>0\<close>, a caption and no
  frame path, the assembly raises \<open>KeyError\<close> and leaves one feature, one caption and no
  frame path.
\<close>

theorem load_features_leaves_misaligned_corpus:
  "fst (load_features stores_no_frame_path
          [(''features'', [(''v_abcdefghijk0.txt'', [Some [3, 4]])])])
     = Some (KeyError (FrameKey ''v_abcdefghijk0'' 0)) \<and>
   features (snd (load_features stores_no_frame_path
          [(''features'', [(''v_abcdefghijk0.txt'', [Some [3, 4]])])])) = [[3, 4]] \<and>
   captions (snd (load_features stores_no_frame_path
          [(''features'', [(''v_abcdefghijk0.txt'', [Some [3, 4]])])])) = [''a''] \<and>
   frame_paths (snd (load_features stores_no_frame_path
          [(''features'', [(''v_abcdefghijk0.txt'', [Some [3, 4]])])])) = []"
  by (simp add: stores_no_frame_path_def load_eval)

text \<open>
  C8. When \<^verbatim>\<open>load_features\<close> succeeds on a manager whose corpus is empty, the corpus has
  as many records as the sum, over the segments visited, of the number of key frames of the
  segment that have a row in its feature file. A key frame beyond the last row adds nothing
  and raises nothing.
\<close>

theorem corpus_length_after_assembly:
  assumes "load_features s feature_folder = (None, s')" and "features s = []"
  shows "length (features s') =
           (\<Sum>(name, ls)\<leftarrow>segments feature_folder.
              card (key_frame_set s name \<inter> rows_with_vector ls))"
proof -
  from assms(1) obtain s1 where ld: "load_dirs s feature_folder = (None, s1)"
    and s': "s' = s1\<lparr>features := np_array (features s1)\<rparr>"
    by (auto simp: load_features_def split: prod.splits option.splits)
  from load_dirs_length[OF ld] assms(2) s' show ?thesis by (simp add: np_array_def)
qed

theorem corpus_length_after_assembly_witness:
  "load_features stores_two_key_frames [(''features'', [(''v_abcdefghijk0.txt'', [Some [3, 4]])])]
     = (None, stores_two_key_frames\<lparr>features := [[3, 4]], captions := [''a''],
          frame_paths := [''frames/v_abcdefghijk0/1.jpg''],
          video_seg_feature_path := [''v_abcdefghijk0'' \<mapsto> ''features/v_abcdefghijk0.txt'']\<rparr>) \<and>
   features stores_two_key_frames = [] \<and>
   (\<Sum>(name, ls)\<leftarrow>segments [(''features'', [(''v_abcdefghijk0.txt'', [Some [3, 4]])])].
       card (key_frame_set stores_two_key_frames name \<inter> rows_with_vector ls)) = 1"
proof -
  have run: "load_features stores_two_key_frames
               [(''features'', [(''v_abcdefghijk0.txt'', [Some [3, 4]])])]
     = (None, stores_two_key_frames\<lparr>features := [[3, 4]], captions := [''a''],
          frame_paths := [''frames/v_abcdefghijk0/1.jpg''],
          video_seg_feature_path := [''v_abcdefghijk0'' \<mapsto> ''features/v_abcdefghijk0.txt'']\<rparr>)"
    by (simp add: stores_two_key_frames_def load_eval)
  have empty: "features stores_two_key_frames = []"
    by (simp add: stores_two_key_frames_def init_def)
  from corpus_length_after_assembly[OF run empty] run empty show ?thesis by simp
qed

subsection \<open>A segment without a caption\<close>

lemma load_file_missing_caption:
  assumes "endswith (fst f) ''.txt''"
    and "decompose (segment_name (fst f)) = Inr (v, i)"
    and "video_seg_id_to_caption s (v, i) = None"
  shows "fst (load_file s root_dir f) = Some (KeyError (CaptionKey v i))"
  using assms by (simp add: load_file_def Let_def segment_name_def)

lemma load_files_fail:
  assumes "f \<in> set fs"
    and "\<And>s'. same_stores s s' \<Longrightarrow> fst (load_file s' root_dir f) \<noteq> None"
  shows "fst (load_files s root_dir fs) \<noteq> None"
  using assms
proof (induction fs arbitrary: s)
  case Nil then show ?case by simp
next
  case (Cons a fs)
  obtain r1 s1 where lf: "load_file s root_dir a = (r1, s1)" by (cases "load_file s root_dir a")
  show ?case
  proof (cases r1)
    case (Some e)
    with lf show ?thesis by simp
  next
    case None
    have st: "same_stores s s1" using lf by (rule load_file_stores)
    show ?thesis
    proof (cases "f = a")
      case True
      with Cons.prems(2)[OF same_stores_refl] lf None show ?thesis by simp
    next
      case False
      with Cons.prems(1) have "f \<in> set fs" by simp
      moreover have "\<And>s'. same_stores s1 s' \<Longrightarrow> fst (load_file s' root_dir f) \<noteq> None"
        using Cons.prems(2) same_stores_trans[OF st] by blast
      ultimately have "fst (load_files s1 root_dir fs) \<noteq> None" by (rule Cons.IH)
      with lf None show ?thesis by simp
    qed
  qed
qed

lemma load_dirs_fail:
  assumes "(root_dir, files) \<in> set ds" and "f \<in> set files"
    and "\<And>s'. same_stores s s' \<Longrightarrow> fst (load_file s' root_dir f) \<noteq> None"
  shows "fst (load_dirs s ds) \<noteq> None"
  using assms
proof (induction ds arbitrary: s)
  case Nil then show ?case by simp
next
  case (Cons d ds)
  obtain rd fs where d: "d = (rd, fs)" by (cases d)
  obtain r1 s1 where lf: "load_files s rd (sort_key fst fs) = (r1, s1)"
    by (cases "load_files s rd (sort_key fst fs)")
  show ?case
  proof (cases r1)
    case (Some e)
    with lf d show ?thesis by simp
  next
    case None
    have st: "same_stores s s1" using lf by (rule load_files_stores)
    show ?thesis
    proof (cases "(root_dir, files) = d")
      case True
      with d have "rd = root_dir" "fs = files" by simp_all
      with Cons.prems(2) have "f \<in> set (sort_key fst fs)" by simp
      from load_files_fail[OF this, of s rd] Cons.prems(3) \<open>rd = root_dir\<close> lf None
      show ?thesis by simp
    next
      case False
      with Cons.prems(1) have "(root_dir, files) \<in> set ds" by auto
      moreover note Cons.prems(2)
      moreover have "\<And>s'. same_stores s1 s' \<Longrightarrow> fst (load_file s' root_dir f) \<noteq> None"
        using Cons.prems(3) same_stores_trans[OF st] by blast
      ultimately have "fst (load_dirs s1 ds) \<noteq> None" by (rule Cons.IH)
      with lf None d show ?thesis by simp
    qed
  qed
qed

lemma load_files_append:
  "load_files s root_dir (xs @ ys) =
     (case load_files s root_dir xs of
        (Some e, s') \<Rightarrow> (Some e, s')
      | (None, s') \<Rightarrow> load_files s' root_dir ys)"
  by (induction xs arbitrary: s) (auto split: prod.splits option.splits)

lemma load_dirs_append:
  "load_dirs s (xs @ ys) =
     (case load_dirs s xs of
        (Some e, s') \<Rightarrow> (Some e, s')
      | (None, s') \<Rightarrow> load_dirs s' ys)"
  by (induction xs arbitrary: s) (auto split: prod.splits option.splits)

text \<open>
  C7, as amended. The assembly visits the feature files of the folder, not the segments of the
  key frame store. Let a feature file of the folder have a name that decomposes, by the rule
  of the fixed prefix, to a video and a segment number that the caption store does not know.
  Then the assembly does not return normally; and when the directories before the file's
  directory and the files before it in its own directory, in sorted order, load without
  error, the error of the assembly is the \<open>KeyError\<close> of that pair.
\<close>

theorem missing_caption_fails_assembly:
  assumes "(root_dir, files) \<in> set feature_folder" and "f \<in> set files"
    and "endswith (fst f) ''.txt''"
    and "decompose (segment_name (fst f)) = Inr (v, i)"
    and "video_seg_id_to_caption s (v, i) = None"
  shows "(\<exists>e. fst (load_features s feature_folder) = Some e) \<and>
         (\<forall>before after earlier later s1 s2.
            feature_folder = before @ (root_dir, files) # after \<and>
            sort_key fst files = earlier @ f # later \<and>
            load_dirs s before = (None, s1) \<and>
            load_files s1 root_dir earlier = (None, s2) \<longrightarrow>
            fst (load_features s feature_folder) = Some (KeyError (CaptionKey v i)))"
proof (intro conjI allI impI)
  have body: "fst (load_file s' root_dir f) = Some (KeyError (CaptionKey v i))"
    if "same_stores s s'" for s'
  proof -
    from that assms(5) have "video_seg_id_to_caption s' (v, i) = None"
      by (simp add: same_stores_def)
    with assms(3,4) show ?thesis by (rule load_file_missing_caption)
  qed
  then have "fst (load_dirs s feature_folder) \<noteq> None"
    using load_dirs_fail[OF assms(1,2), of s] by simp
  then show "\<exists>e. fst (load_features s feature_folder) = Some e"
    by (auto simp: load_features_def split: prod.splits option.splits)
  fix before after earlier later s1 s2
  assume h: "feature_folder = before @ (root_dir, files) # after \<and>
            sort_key fst files = earlier @ f # later \<and>
            load_dirs s before = (None, s1) \<and>
            load_files s1 root_dir earlier = (None, s2)"
  then have folder: "feature_folder = before @ (root_dir, files) # after"
    and sorted_files: "sort_key fst files = earlier @ f # later"
    and l1: "load_dirs s before = (None, s1)"
    and l2: "load_files s1 root_dir earlier = (None, s2)"
    by blast+
  have "same_stores s s2"
    using load_dirs_stores[OF l1] load_files_stores[OF l2] by (rule same_stores_trans)
  from body[OF this] obtain s3 where
    lf: "load_file s2 root_dir f = (Some (KeyError (CaptionKey v i)), s3)"
    by (cases "load_file s2 root_dir f") auto
  have "load_files s1 root_dir (sort_key fst files) = (Some (KeyError (CaptionKey v i)), s3)"
    unfolding sorted_files load_files_append by (simp add: l2 lf)
  then have "load_dirs s feature_folder = (Some (KeyError (CaptionKey v i)), s3)"
    unfolding folder load_dirs_append by (simp add: l1)
  then show "fst (load_features s feature_folder) = Some (KeyError (CaptionKey v i))"
    by (simp add: load_features_def)
qed

theorem missing_caption_fails_assembly_witness:
  "(''features'', snd (hd two_segment_folder)) \<in> set two_segment_folder \<and>
   (''v_abcdefghijk1.txt'', [Some [1, 2]]) \<in> set (snd (hd two_segment_folder)) \<and>
   endswith ''v_abcdefghijk1.txt'' ''.txt'' \<and>
   decompose (segment_name ''v_abcdefghijk1.txt'') = Inr (''v_abcdefghijk'', 1) \<and>
   video_seg_id_to_caption stores_one_caption (''v_abcdefghijk'', 1) = None \<and>
   two_segment_folder = [] @ (''features'', snd (hd two_segment_folder)) # [] \<and>
   sort_key fst (snd (hd two_segment_folder))
     = [(''v_abcdefghijk0.txt'', [Some [3, 4]])] @ (''v_abcdefghijk1.txt'', [Some [1, 2]]) # [] \<and>
   load_dirs stores_one_caption [] = (None, stores_one_caption) \<and>
   fst (load_files stores_one_caption ''features'' [(''v_abcdefghijk0.txt'', [Some [3, 4]])])
     = None \<and>
   fst (load_features stores_one_caption two_segment_folder)
     = Some (KeyError (CaptionKey ''v_abcdefghijk'' 1))"
proof -
  let ?f = "(''v_abcdefghijk1.txt'', [Some [1, 2 :: real]])"
  let ?g = "(''v_abcdefghijk0.txt'', [Some [3, 4 :: real]])"
  have h1: "(''features'', snd (hd two_segment_folder)) \<in> set two_segment_folder"
    by (simp add: two_segment_folder_def)
  have h2: "?f \<in> set (snd (hd two_segment_folder))"
    by (simp add: two_segment_folder_def)
  have h3: "endswith (fst ?f) ''.txt''" by (simp add: endswith_def)
  have h4: "decompose (segment_name (fst ?f)) = Inr (''v_abcdefghijk'', 1)"
    by (simp add: segment_name_def load_eval)
  have h5: "video_seg_id_to_caption stores_one_caption (''v_abcdefghijk'', 1) = None"
    by (simp add: stores_one_caption_def init_def)
  have f1: "two_segment_folder = [] @ (''features'', snd (hd two_segment_folder)) # []"
    by (simp add: two_segment_folder_def)
  have f2: "sort_key fst (snd (hd two_segment_folder)) = [?g] @ ?f # []"
    by (simp add: two_segment_folder_def)
  have f3: "load_dirs stores_one_caption [] = (None, stores_one_caption)" by simp
  obtain s2 where f4: "load_files stores_one_caption ''features'' [?g] = (None, s2)"
    by (simp add: stores_one_caption_def load_eval)
  from missing_caption_fails_assembly[OF h1 h2 h3 h4 h5] f1 f2 f3 f4
  have "fst (load_features stores_one_caption two_segment_folder)
     = Some (KeyError (CaptionKey ''v_abcdefghijk'' 1))" by blast
  with h1 h2 h3 h4 h5 f1 f2 f3 f4 show ?thesis by simp
qed

text \<open>The claim as it is stated fails for a segment that has key frames and no feature file:
  it is never visited, and the assembly returns normally.\<close>

theorem selector_only_segment_counterexample:
  "key_frames stores_selector_only ''v_abcdefghijk5'' = Some {0} \<and>
   decompose ''v_abcdefghijk5'' = Inr (''v_abcdefghijk'', 5) \<and>
   video_seg_id_to_caption stores_selector_only (''v_abcdefghijk'', 5) = None \<and>
   load_features stores_selector_only [(''features'', [])] = (None, stores_selector_only)"
  by (simp add: stores_selector_only_def load_eval)

subsection \<open>The sentinels of the working set\<close>

text \<open>
  C4. The claim: the working set of the cosine query starts at a score below every valid
  similarity, so that a record of similarity \<open>-1\<close> replaces the minimum. The code starts
  at \<open>-1\<close> and replaces on a strictly greater similarity only: in the corpus
  \<open>[-1, 0]\<close>, \<open>[0, 1]\<close> with the query \<open>[1, 0]\<close> and \<open>k = 2\<close>, record \<open>0\<close> has
  similarity \<open>-1\<close> and never enters the working set, whose second slot keeps the index
  \<open>-1\<close>; the answer names record \<open>1\<close> twice.
\<close>

theorem cosine_sentinel_hides_opposite_record:
  "cosine_scan [1, 0] (enumerate 0 (features corpus_opposite)) ([- 1, - 1], [- 1, - 1])
     = Inr ([0, - 1], [1, - 1]) \<and>
   fst (query_knn_caption_brutal_force_cosine_similarity corpus_opposite [[1, 0]] 2)
     = Inr ([''b'', ''b''], [''q'', ''q''], [0, - 1])"
  by (simp add: corpus_opposite_def query_eval)

text \<open>
  C5. The claim: when \<open>k\<close> exceeds the size of the corpus, the slots beyond the corpus
  carry an invalid marker and no caption or frame path of a record. The code keeps the index
  \<open>-1\<close> in such a slot and then reads \<^verbatim>\<open>self.captions[-1]\<close>, the last record:
  with one record and \<open>k = 2\<close>, both queries answer with that record twice.
\<close>

theorem sentinel_index_reads_last_record:
  "fst (query_knn_caption_brutal_force_cosine_similarity corpus_one [[1, 0]] 2)
     = Inr ([''a'', ''a''], [''p'', ''p''], [1, - 1]) \<and>
   fst (query_knn_caption_brutal_force_euclidean_distance corpus_one [[1, 0]] 2)
     = Inr ([''a'', ''a''], [''p'', ''p''], [Finite 0, Infinity])"
  by (simp add: corpus_one_def query_eval)

subsection \<open>Facts about the primitives\<close>

lemma first_index_found:
  "v \<in> set xs \<Longrightarrow> first_index xs v < length xs \<and> xs ! first_index xs v = v"
  by (induction xs) auto


lemma np_argmax_Inr:
  assumes "xs \<noteq> []"
  shows "\<exists>i. np_argmax xs = Inr i \<and> i < length xs \<and> xs ! i = Max (set xs)"
proof -
  from assms have "Max (set xs) \<in> set xs" by (simp add: Max_in)
  from first_index_found[OF this] assms show ?thesis by (simp add: np_argmax_def)
qed

lemma length_np_argsort: "length (np_argsort xs) = length xs"
  by (simp add: np_argsort_def)

lemma set_np_argsort: "set (np_argsort xs) = {0..<length xs}"
  by (simp add: np_argsort_def)

lemma sorted_np_take_argsort: "sorted (np_take xs (np_argsort xs))"
  unfolding np_take_def np_argsort_def by (rule sorted_sort_key)

lemma set_np_take:
  assumes "set idxs \<subseteq> {0..<length ys}"
  shows "set (np_take ys idxs) \<subseteq> set ys"
  using assms by (auto simp: np_take_def)

lemma length_np_take: "length (np_take ys idxs) = length idxs"
  by (simp add: np_take_def)

lemma py_gather_Inr:
  assumes "xs \<noteq> []" and "\<forall>j\<in>set idxs. - 1 \<le> j \<and> j < int (length xs)"
  shows "\<exists>vs. py_gather xs idxs = Inr vs \<and> length vs = length idxs"
  using assms(2)
proof (induction idxs)
  case Nil
  then show ?case by simp
next
  case (Cons j idxs)
  from Cons.prems have j: "- 1 \<le> j" "j < int (length xs)" by simp_all
  from assms(1) have "1 \<le> int (length xs)" by (cases xs) simp_all
  with j have "- int (length xs) \<le> j" by linarith
  with j have "\<exists>v. py_index xs j = Inr v" by (simp add: py_index_def)
  moreover from Cons have "\<exists>vs. py_gather xs idxs = Inr vs \<and> length vs = length idxs" by simp
  ultimately show ?case by auto
qed

lemma sum_squares_nonneg: "0 \<le> sum_squares v"
  unfolding sum_squares_def by (induction v) auto

lemma dot_le_squares:
  "length a = length b \<Longrightarrow> 2 * (\<Sum>(x, y)\<leftarrow>zip a b. x * y) \<le> sum_squares a + sum_squares b"
proof (induction a b rule: list_induct2)
  case Nil
  then show ?case by (simp add: sum_squares_def)
next
  case (Cons x xs y ys)
  have "0 \<le> (x - y) * (x - y)" by simp
  then have "2 * (x * y) \<le> x * x + y * y" by (simp add: algebra_simps)
  with Cons.IH show ?case by (simp add: sum_squares_def algebra_simps)
qed

lemma dot_ge_squares:
  "length a = length b \<Longrightarrow> - (sum_squares a + sum_squares b) \<le> 2 * (\<Sum>(x, y)\<leftarrow>zip a b. x * y)"
proof (induction a b rule: list_induct2)
  case Nil
  then show ?case by (simp add: sum_squares_def)
next
  case (Cons x xs y ys)
  have "0 \<le> (x + y) * (x + y)" by simp
  then have "- (x * x + y * y) \<le> 2 * (x * y)" by (simp add: algebra_simps)
  with Cons.IH show ?case by (simp add: sum_squares_def algebra_simps)
qed

lemma dot_unit_bounds:
  assumes "length a = length b" and "sum_squares a \<le> 1" and "sum_squares b \<le> 1"
  shows "- 1 \<le> (\<Sum>(x, y)\<leftarrow>zip a b. x * y) \<and> (\<Sum>(x, y)\<leftarrow>zip a b. x * y) \<le> 1"
  using dot_le_squares[OF assms(1)] dot_ge_squares[OF assms(1)] assms(2,3) by linarith

lemma sum_squares_scaled: "sum_squares (map (\<lambda>x. x / c) v) = sum_squares v / (c * c)"
  unfolding sum_squares_def by (induction v) (simp_all add: add_divide_distrib)

lemma sum_squares_normalize_row: "sum_squares (normalize_row v) \<le> 1"
proof (cases "l2_norm v = 0")
  case True
  then have "sum_squares v = 0" by (simp add: l2_norm_def)
  with True show ?thesis by (simp add: normalize_row_def)
next
  case False
  have "l2_norm v * l2_norm v = sum_squares v"
    unfolding l2_norm_def using sum_squares_nonneg[of v] by simp
  with False show ?thesis
    by (simp add: normalize_row_def Let_def sum_squares_scaled)
qed

lemma length_normalize_row: "length (normalize_row v) = length v"
  by (simp add: normalize_row_def Let_def)

lemma sum_squares_le_1_iff: "sum_squares v \<le> 1 \<longleftrightarrow> l2_norm v \<le> 1"
  by (simp add: l2_norm_def)

lemma is_2d_array_Nil: "\<not> is_2d_array []"
  by (simp add: is_2d_array_def)

lemma is_2d_array_Cons:
  "is_2d_array (r # rs) \<longleftrightarrow> r \<noteq> [] \<and> (\<forall>x\<in>set rs. length x = length r)"
  by (simp add: is_2d_array_def list_all_iff)

lemma normalize_row_eq_Nil: "normalize_row v = [] \<longleftrightarrow> v = []"
  by (simp add: normalize_row_def Let_def)

lemma distinct_np_argsort: "distinct (np_argsort xs)"
  by (simp add: np_argsort_def)

lemma py_gather_nth:
  assumes "\<forall>i\<in>set idxs. 0 \<le> i \<and> i < int (length xs)"
  shows "py_gather xs idxs = Inr (map (\<lambda>i. xs ! nat i) idxs)"
  using assms by (induction idxs) (simp_all add: py_index_def)


subsection \<open>Facts about the scans\<close>



lemma le_Infinity: "d \<le> Infinity"
  by (cases d) simp_all

lemma np_sub_Inr:
  assumes "\<forall>r\<in>set Q. length r = length f"
  shows "\<exists>M. np_sub f Q = Inr M"
  using assms by (induction Q) (auto simp: broadcast_sub_def)

subsection \<open>The cosine query returns the k most similar records\<close>







lemma cosine_similarity_normalized:
  assumes "length f = length (hd query_feature)" and "l2_norm f \<le> 1"
  shows "- 1 \<le> cosine_similarity query_feature f \<and> cosine_similarity query_feature f \<le> 1"
proof -
  have a: "length f = length (normalize_row (hd query_feature))"
    using assms(1) by (simp add: length_normalize_row)
  have b: "sum_squares f \<le> 1" using assms(2) by (simp add: sum_squares_le_1_iff)
  show ?thesis
    unfolding cosine_similarity_def using a b sum_squares_normalize_row by (rule dot_unit_bounds)
qed




subsection \<open>The Euclidean query returns the k nearest records\<close>

lemma np_linalg_norm_nonneg: "Finite 0 \<le> np_linalg_norm M"
proof -
  have "0 \<le> (\<Sum>r\<leftarrow>M. sum_squares r)"
    by (rule sum_list_nonneg) (auto simp: sum_squares_nonneg)
  then show ?thesis by (simp add: np_linalg_norm_def Let_def)
qed

lemma euclidean_distance_nonneg: "Finite 0 \<le> euclidean_distance Q f"
  by (simp add: euclidean_distance_def np_linalg_norm_nonneg split: sum.splits)

lemma euclidean_working_set_init:
  assumes "0 < K"
  shows "euclidean_working_set D 0 (replicate K Infinity) (replicate K (- 1))"
  using assms by (simp add: euclidean_working_set_def)

lemma euclidean_working_set_keep:
  assumes inv: "euclidean_working_set D j ds idxs"
    and m: "ds ! m = Max (set ds)"
    and keep: "\<not> D j < ds ! m"
  shows "euclidean_working_set D (Suc j) ds idxs"
proof -
  from inv have ne: "ds \<noteq> []" and len: "length idxs = length ds"
    and slots: "\<forall>p<length ds. (ds ! p = Infinity \<and> idxs ! p = - 1) \<or>
        (0 \<le> idxs ! p \<and> nat (idxs ! p) < j \<and> ds ! p = D (nat (idxs ! p)) \<and>
         ds ! p \<noteq> Infinity)"
    and once: "\<forall>p<length ds. \<forall>r<length ds. 0 \<le> idxs ! p \<and> idxs ! p = idxs ! r \<longrightarrow> p = r"
    and out: "\<forall>i<j. int i \<notin> set idxs \<longrightarrow> (\<forall>x\<in>set ds. x \<le> D i)"
    unfolding euclidean_working_set_def by blast+
  have slots': "\<forall>p<length ds. (ds ! p = Infinity \<and> idxs ! p = - 1) \<or>
        (0 \<le> idxs ! p \<and> nat (idxs ! p) < Suc j \<and> ds ! p = D (nat (idxs ! p)) \<and>
         ds ! p \<noteq> Infinity)"
    using slots by (meson less_Suc_eq)
  have out': "\<forall>i<Suc j. int i \<notin> set idxs \<longrightarrow> (\<forall>x\<in>set ds. x \<le> D i)"
  proof (intro allI impI ballI)
    fix i x assume i: "i < Suc j" and ni: "int i \<notin> set idxs" and x: "x \<in> set ds"
    show "x \<le> D i"
    proof (cases "i = j")
      case True
      have "x \<le> Max (set ds)" using x by simp
      with keep m True show ?thesis by simp
    next
      case False
      with i have "i < j" by simp
      with out ni x show ?thesis by blast
    qed
  qed
  from ne len slots' once out' show ?thesis unfolding euclidean_working_set_def by blast
qed

lemma euclidean_working_set_replace:
  assumes inv: "euclidean_working_set D j ds idxs"
    and ml: "m < length ds"
    and m: "ds ! m = Max (set ds)"
    and lt: "D j < ds ! m"
  shows "euclidean_working_set D (Suc j) (ds[m := D j]) (idxs[m := int j])"
proof -
  from inv have ne: "ds \<noteq> []" and len: "length idxs = length ds"
    and slots: "\<forall>p<length ds. (ds ! p = Infinity \<and> idxs ! p = - 1) \<or>
        (0 \<le> idxs ! p \<and> nat (idxs ! p) < j \<and> ds ! p = D (nat (idxs ! p)) \<and>
         ds ! p \<noteq> Infinity)"
    and once: "\<forall>p<length ds. \<forall>r<length ds. 0 \<le> idxs ! p \<and> idxs ! p = idxs ! r \<longrightarrow> p = r"
    and out: "\<forall>i<j. int i \<notin> set idxs \<longrightarrow> (\<forall>x\<in>set ds. x \<le> D i)"
    unfolding euclidean_working_set_def by blast+
  let ?ds = "ds[m := D j]" and ?idxs = "idxs[m := int j]"
  have fin: "D j \<noteq> Infinity"
  proof
    assume "D j = Infinity"
    with lt have "Infinity < ds ! m" by simp
    moreover have "ds ! m \<le> Infinity" by (rule le_Infinity)
    ultimately show False by (meson leD)
  qed
  have below: "idxs ! p < int j" if "p < length ds" for p
    using slots that by fastforce
  have a: "?ds \<noteq> []" using ne by simp
  have b: "length ?idxs = length ?ds" using len by simp
  have c: "\<forall>p<length ?ds. (?ds ! p = Infinity \<and> ?idxs ! p = - 1) \<or>
        (0 \<le> ?idxs ! p \<and> nat (?idxs ! p) < Suc j \<and> ?ds ! p = D (nat (?idxs ! p)) \<and>
         ?ds ! p \<noteq> Infinity)"
  proof (intro allI impI)
    fix p assume p: "p < length ?ds"
    show "(?ds ! p = Infinity \<and> ?idxs ! p = - 1) \<or>
        (0 \<le> ?idxs ! p \<and> nat (?idxs ! p) < Suc j \<and> ?ds ! p = D (nat (?idxs ! p)) \<and>
         ?ds ! p \<noteq> Infinity)"
    proof (cases "p = m")
      case True
      with ml len fin show ?thesis by simp
    next
      case False
      from p have "p < length ds" by simp
      with slots have "(ds ! p = Infinity \<and> idxs ! p = - 1) \<or>
        (0 \<le> idxs ! p \<and> nat (idxs ! p) < j \<and> ds ! p = D (nat (idxs ! p)) \<and>
         ds ! p \<noteq> Infinity)" by blast
      with False show ?thesis by auto
    qed
  qed
  have d: "\<forall>p<length ?ds. \<forall>r<length ?ds. 0 \<le> ?idxs ! p \<and> ?idxs ! p = ?idxs ! r \<longrightarrow> p = r"
  proof (intro allI impI)
    fix p r assume p: "p < length ?ds" and r: "r < length ?ds"
      and eq: "0 \<le> ?idxs ! p \<and> ?idxs ! p = ?idxs ! r"
    from p r have pl: "p < length ds" and rl: "r < length ds" by simp_all
    show "p = r"
    proof (cases "p = m")
      case True
      show ?thesis
      proof (rule ccontr)
        assume "p \<noteq> r"
        with True have "?idxs ! r = idxs ! r" by simp
        moreover from True ml len have "?idxs ! p = int j" by simp
        ultimately have "idxs ! r = int j" using eq by simp
        with below[OF rl] show False by simp
      qed
    next
      case False
      then have pe: "?idxs ! p = idxs ! p" by simp
      show ?thesis
      proof (cases "r = m")
        case True
        with ml len have "?idxs ! r = int j" by simp
        with pe eq have "idxs ! p = int j" by simp
        with below[OF pl] show ?thesis by simp
      next
        case False
        then have "?idxs ! r = idxs ! r" by simp
        with pe eq once pl rl show ?thesis by metis
      qed
    qed
  qed
  have e: "\<forall>i<Suc j. int i \<notin> set ?idxs \<longrightarrow> (\<forall>x\<in>set ?ds. x \<le> D i)"
  proof (intro allI impI ballI)
    fix i x assume i: "i < Suc j" and ni: "int i \<notin> set ?idxs" and x: "x \<in> set ?ds"
    have "int j \<in> set ?idxs" using ml len by (simp add: set_update_memI)
    with ni have "i \<noteq> j" by auto
    with i have ij: "i < j" by simp
    have ge_max: "Max (set ds) \<le> D i"
    proof (cases "int i \<in> set idxs")
      case False
      have "Max (set ds) \<in> set ds" using ne by simp
      with out ij False show ?thesis by blast
    next
      case True
      then obtain p where p: "p < length idxs" "idxs ! p = int i"
        by (auto simp: in_set_conv_nth)
      have "p = m"
      proof (rule ccontr)
        assume "p \<noteq> m"
        then have "?idxs ! p = int i" using p by simp
        moreover have "p < length ?idxs" using p by simp
        ultimately have "int i \<in> set ?idxs" by (metis nth_mem)
        with ni show False by simp
      qed
      with p have im: "idxs ! m = int i" by simp
      from slots ml have "(ds ! m = Infinity \<and> idxs ! m = - 1) \<or>
        (0 \<le> idxs ! m \<and> nat (idxs ! m) < j \<and> ds ! m = D (nat (idxs ! m)) \<and>
         ds ! m \<noteq> Infinity)" by blast
      with im have "ds ! m = D i" by auto
      with m show ?thesis by simp
    qed
    from x have "x = D j \<or> x \<in> set ds"
      using set_update_subset_insert[of ds m "D j"] by auto
    then show "x \<le> D i"
    proof
      assume "x = D j"
      with ge_max lt m show ?thesis by simp
    next
      assume "x \<in> set ds"
      then have "x \<le> Max (set ds)" by simp
      with ge_max show ?thesis by simp
    qed
  qed
  from a b c d e show ?thesis unfolding euclidean_working_set_def by blast
qed

lemma euclidean_scan_working_set:
  assumes "\<forall>p<length fs. (\<exists>M. np_sub (fs ! p) Q = Inr M) \<and>
                          D (j + p) = euclidean_distance Q (fs ! p)"
    and "euclidean_working_set D j ds idxs"
  shows "\<exists>ds' idxs'. euclidean_scan Q (enumerate j fs) (ds, idxs) = Inr (ds', idxs') \<and>
           euclidean_working_set D (j + length fs) ds' idxs' \<and> length ds' = length ds"
  using assms
proof (induction fs arbitrary: j ds idxs)
  case Nil
  then show ?case by simp
next
  case (Cons f fs)
  from Cons.prems(1) have "(\<exists>M. np_sub ((f # fs) ! 0) Q = Inr M) \<and>
      D (j + 0) = euclidean_distance Q ((f # fs) ! 0)" by blast
  then obtain M where sub: "np_sub f Q = Inr M" and Dj: "D j = euclidean_distance Q f"
    by auto
  from sub Dj have dist: "np_linalg_norm M = D j" by (simp add: euclidean_distance_def)
  have rest: "\<forall>p<length fs. (\<exists>M. np_sub (fs ! p) Q = Inr M) \<and>
                          D (Suc j + p) = euclidean_distance Q (fs ! p)"
  proof (intro allI impI)
    fix p assume "p < length fs"
    then have "Suc p < length (f # fs)" by simp
    with Cons.prems(1) have "(\<exists>M. np_sub ((f # fs) ! Suc p) Q = Inr M) \<and>
      D (j + Suc p) = euclidean_distance Q ((f # fs) ! Suc p)" by blast
    then show "(\<exists>M. np_sub (fs ! p) Q = Inr M) \<and>
                 D (Suc j + p) = euclidean_distance Q (fs ! p)" by simp
  qed
  from Cons.prems(2) have ne: "ds \<noteq> []" by (simp add: euclidean_working_set_def)
  from np_argmax_Inr[OF ne] obtain m where
    m: "np_argmax ds = Inr m" "m < length ds" "ds ! m = Max (set ds)" by blast
  show ?case
  proof (cases "D j < ds ! m")
    case True
    have "euclidean_working_set D (Suc j) (ds[m := D j]) (idxs[m := int j])"
      using Cons.prems(2) m(2,3) True by (rule euclidean_working_set_replace)
    from Cons.IH[OF rest this] obtain ds' idxs' where
      r: "euclidean_scan Q (enumerate (Suc j) fs) (ds[m := D j], idxs[m := int j])
            = Inr (ds', idxs')"
        "euclidean_working_set D (Suc j + length fs) ds' idxs'"
        "length ds' = length (ds[m := D j])"
      by blast
    have "euclidean_scan Q (enumerate j (f # fs)) (ds, idxs) = Inr (ds', idxs')"
      using r(1) True sub dist m(1) by (simp add: Let_def)
    with r(2,3) show ?thesis by simp
  next
    case False
    have "euclidean_working_set D (Suc j) ds idxs"
      using Cons.prems(2) m(3) False by (rule euclidean_working_set_keep)
    from Cons.IH[OF rest this] obtain ds' idxs' where
      r: "euclidean_scan Q (enumerate (Suc j) fs) (ds, idxs) = Inr (ds', idxs')"
        "euclidean_working_set D (Suc j + length fs) ds' idxs'"
        "length ds' = length ds"
      by blast
    have "euclidean_scan Q (enumerate j (f # fs)) (ds, idxs) = Inr (ds', idxs')"
      using r(1) False sub dist m(1) by (simp add: Let_def)
    with r(2,3) show ?thesis by simp
  qed
qed

lemma euclidean_working_set_full:
  assumes inv: "euclidean_working_set D n ds idxs"
    and kn: "length ds \<le> n"
    and finite: "\<forall>i<n. D i \<noteq> Infinity"
    and p: "p < length ds"
  shows "0 \<le> idxs ! p \<and> nat (idxs ! p) < n \<and> ds ! p = D (nat (idxs ! p))"
proof (rule ccontr)
  assume neg: "\<not> ?thesis"
  from inv have len: "length idxs = length ds"
    and slots: "\<forall>p<length ds. (ds ! p = Infinity \<and> idxs ! p = - 1) \<or>
        (0 \<le> idxs ! p \<and> nat (idxs ! p) < n \<and> ds ! p = D (nat (idxs ! p)) \<and>
         ds ! p \<noteq> Infinity)"
    and out: "\<forall>i<n. int i \<notin> set idxs \<longrightarrow> (\<forall>x\<in>set ds. x \<le> D i)"
    unfolding euclidean_working_set_def by blast+
  from slots p neg have sent: "ds ! p = Infinity" "idxs ! p = - 1" by blast+
  have mem: "Infinity \<in> set ds" using sent(1) p by (metis nth_mem)
  have all_in: "int i \<in> set idxs" if "i < n" for i
  proof (rule ccontr)
    assume "int i \<notin> set idxs"
    with out that mem have "Infinity \<le> D i" by blast
    moreover have "D i \<le> Infinity" by (rule le_Infinity)
    ultimately have "D i = Infinity" by simp
    with finite that show False by blast
  qed
  have "- 1 \<in> set idxs" using sent(2) p len by (metis nth_mem)
  with all_in have sub: "insert (- 1) (int ` {..<n}) \<subseteq> set idxs" by auto
  have "card (insert (- 1 :: int) (int ` {..<n})) = Suc n"
    by (subst card_insert_disjoint) (auto simp: card_image)
  with sub have "Suc n \<le> card (set idxs)"
    by (metis List.finite_set card_mono)
  also have "\<dots> \<le> length idxs" by (rule card_length)
  finally show False using len kn by simp
qed

lemma euclidean_working_set_slots:
  assumes inv: "euclidean_working_set D n ds idxs"
    and nonneg: "\<forall>i. Finite 0 \<le> D i"
  shows "(\<forall>d\<in>set ds. Finite 0 \<le> d) \<and> (\<forall>j\<in>set idxs. - 1 \<le> j \<and> j < int n)"
proof -
  from inv have len: "length idxs = length ds"
    and slots: "\<forall>p<length ds. (ds ! p = Infinity \<and> idxs ! p = - 1) \<or>
        (0 \<le> idxs ! p \<and> nat (idxs ! p) < n \<and> ds ! p = D (nat (idxs ! p)) \<and>
         ds ! p \<noteq> Infinity)"
    unfolding euclidean_working_set_def by blast+
  have a: "Finite 0 \<le> d" if "d \<in> set ds" for d
  proof -
    from that obtain p where p: "p < length ds" "ds ! p = d" by (auto simp: in_set_conv_nth)
    with slots have "d = Infinity \<or> d = D (nat (idxs ! p))" by blast
    then show ?thesis using nonneg le_Infinity by auto
  qed
  have b: "- 1 \<le> j \<and> j < int n" if "j \<in> set idxs" for j
  proof -
    from that obtain p where p: "p < length ds" "idxs ! p = j"
      by (auto simp: in_set_conv_nth len)
    with slots have "j = - 1 \<or> (0 \<le> j \<and> nat j < n)" by blast
    then show ?thesis by arith
  qed
  from a b show ?thesis by blast
qed

text \<open>
  C2. Take a non-empty corpus with aligned captions and frame paths, a query array of the
  dimension of the corpus, and \<open>1 \<le> k \<le>\<close> the size of the corpus. The Euclidean query
  returns \<open>k\<close> captions, \<open>k\<close> frame paths and \<open>k\<close> distances, each at least
  \<open>0\<close>, in non-decreasing order. When no distance overflows, the \<open>k\<close> entries are
  \<open>k\<close> different records of the corpus, each with its own caption, frame path and
  distance to the query, and no record left out is nearer than a record returned.
\<close>

theorem euclidean_query_returns_k_nearest:
  assumes "features s \<noteq> []" and "1 \<le> k" and "k \<le> int (length (features s))"
    and "length (captions s) = length (features s)"
    and "length (frame_paths s) = length (features s)"
    and "is_2d_array query_feature"
    and "\<forall>f\<in>set (features s). length f = length (hd query_feature)"
  shows "\<exists>cs ps dists.
           fst (query_knn_caption_brutal_force_euclidean_distance s query_feature k)
             = Inr (cs, ps, dists) \<and>
           length cs = nat k \<and> length ps = nat k \<and> length dists = nat k \<and>
           (\<forall>d\<in>set dists. Finite 0 \<le> d) \<and> sorted dists \<and>
           ((\<forall>f\<in>set (features s). euclidean_distance query_feature f \<noteq> Infinity) \<longrightarrow>
            (\<exists>is. length is = nat k \<and> distinct is \<and> (\<forall>i\<in>set is. i < length (features s)) \<and>
               cs = map (\<lambda>i. captions s ! i) is \<and> ps = map (\<lambda>i. frame_paths s ! i) is \<and>
               dists = map (\<lambda>i. euclidean_distance query_feature (features s ! i)) is \<and>
               (\<forall>j<length (features s). j \<notin> set is \<longrightarrow>
                  (\<forall>i\<in>set is. euclidean_distance query_feature (features s ! i)
                               \<le> euclidean_distance query_feature (features s ! j)))))"
proof -
  let ?n = "length (features s)"
  let ?K = "nat k"
  define D where "D = (\<lambda>i. euclidean_distance query_feature (features s ! i))"
  have rows: "\<forall>r\<in>set query_feature. length r = length (hd query_feature)"
    using assms(6) unfolding is_2d_array_def list_all_iff by blast
  have K: "0 < ?K" using assms(2) by simp
  have rec: "\<forall>p<?n. (\<exists>M. np_sub (features s ! p) query_feature = Inr M) \<and>
                    D (0 + p) = euclidean_distance query_feature (features s ! p)"
  proof (intro allI impI)
    fix p assume "p < ?n"
    then have "features s ! p \<in> set (features s)" by simp
    with assms(7) rows have "\<forall>r\<in>set query_feature. length r = length (features s ! p)"
      by simp
    then have "\<exists>M. np_sub (features s ! p) query_feature = Inr M" by (rule np_sub_Inr)
    then show "(\<exists>M. np_sub (features s ! p) query_feature = Inr M) \<and>
                    D (0 + p) = euclidean_distance query_feature (features s ! p)"
      by (simp add: D_def)
  qed
  from euclidean_scan_working_set[OF rec euclidean_working_set_init[OF K]]
  obtain ds' idxs' where
    scan: "euclidean_scan query_feature (enumerate 0 (features s))
             (replicate ?K Infinity, replicate ?K (- 1)) = Inr (ds', idxs')"
    and inv: "euclidean_working_set D ?n ds' idxs'"
    and ls: "length ds' = ?K"
    by auto
  from inv have li: "length idxs' = ?K"
    and once: "\<forall>p<?K. \<forall>r<?K. 0 \<le> idxs' ! p \<and> idxs' ! p = idxs' ! r \<longrightarrow> p = r"
    and out: "\<forall>i<?n. int i \<notin> set idxs' \<longrightarrow> (\<forall>x\<in>set ds'. x \<le> D i)"
    unfolding euclidean_working_set_def ls[symmetric] by blast+
  have "\<forall>i. Finite 0 \<le> D i" by (simp add: D_def euclidean_distance_nonneg)
  from euclidean_working_set_slots[OF inv this]
  have nonneg: "\<forall>d\<in>set ds'. Finite 0 \<le> d"
    and bounds: "\<forall>j\<in>set idxs'. - 1 \<le> j \<and> j < int ?n" by blast+
  let ?args = "np_argsort ds'"
  let ?dists = "np_take ds' ?args"
  let ?idxs = "np_take idxs' ?args"
  have args_set: "set ?args = {0..<?K}" by (simp add: set_np_argsort ls)
  have args_lt: "a < ?K" if "a \<in> set ?args" for a using that args_set by simp
  have args_dist: "distinct ?args" by (rule distinct_np_argsort)
  have args_len: "length ?args = ?K" by (simp add: length_np_argsort ls)
  have d_sub: "set ?dists \<subseteq> set ds'" using args_set ls by (intro set_np_take) simp
  have i_sub: "set ?idxs \<subseteq> set idxs'" using args_set li by (intro set_np_take) simp
  have len: "length ?dists = ?K" "length ?idxs = ?K"
    using args_len by (simp_all add: length_np_take)
  have cne: "captions s \<noteq> []" and pne: "frame_paths s \<noteq> []"
    using assms(1,4,5) by auto
  have "\<forall>j\<in>set ?idxs. - 1 \<le> j \<and> j < int (length (captions s))"
    using bounds i_sub assms(4) by auto
  from py_gather_Inr[OF cne this] len(2) obtain cs where
    cs: "py_gather (captions s) ?idxs = Inr cs" "length cs = ?K" by auto
  have "\<forall>j\<in>set ?idxs. - 1 \<le> j \<and> j < int (length (frame_paths s))"
    using bounds i_sub assms(5) by auto
  from py_gather_Inr[OF pne this] len(2) obtain ps where
    ps: "py_gather (frame_paths s) ?idxs = Inr ps" "length ps = ?K" by auto
  have res: "fst (query_knn_caption_brutal_force_euclidean_distance s query_feature k)
               = Inr (cs, ps, ?dists)"
    by (simp add: query_knn_caption_brutal_force_euclidean_distance_def scan Let_def cs ps)
  have nn: "\<forall>d\<in>set ?dists. Finite 0 \<le> d" using nonneg d_sub by blast
  have srt: "sorted ?dists" by (rule sorted_np_take_argsort)
  have nearest: "\<exists>is. length is = ?K \<and> distinct is \<and> (\<forall>i\<in>set is. i < ?n) \<and>
               cs = map (\<lambda>i. captions s ! i) is \<and> ps = map (\<lambda>i. frame_paths s ! i) is \<and>
               ?dists = map D is \<and>
               (\<forall>j<?n. j \<notin> set is \<longrightarrow> (\<forall>i\<in>set is. D i \<le> D j))"
    if fin: "\<forall>f\<in>set (features s). euclidean_distance query_feature f \<noteq> Infinity"
  proof -
    have finite: "\<forall>i<?n. D i \<noteq> Infinity" using fin by (simp add: D_def)
    have kn: "length ds' \<le> ?n" using ls assms(3) by simp
    have full: "0 \<le> idxs' ! p \<and> nat (idxs' ! p) < ?n \<and> ds' ! p = D (nat (idxs' ! p))"
      if "p < ?K" for p
      using euclidean_working_set_full[OF inv kn finite] that ls by simp
    define "is" where "is = map (\<lambda>a. nat (idxs' ! a)) ?args"
    have len_is: "length is = ?K" by (simp add: is_def args_len)
    have inj: "inj_on (\<lambda>a. nat (idxs' ! a)) (set ?args)"
    proof (rule inj_onI)
      fix a b assume a: "a \<in> set ?args" and b: "b \<in> set ?args"
        and eq: "nat (idxs' ! a) = nat (idxs' ! b)"
      from full[OF args_lt[OF a]] full[OF args_lt[OF b]]
      have "0 \<le> idxs' ! a" and "0 \<le> idxs' ! b" by blast+
      with eq have "0 \<le> idxs' ! a \<and> idxs' ! a = idxs' ! b" by arith
      with once args_lt[OF a] args_lt[OF b] show "a = b" by blast
    qed
    have dist_is: "distinct is" unfolding is_def using args_dist inj by (simp add: distinct_map)
    have is_lt: "\<forall>i\<in>set is. i < ?n" unfolding is_def using full args_lt by auto
    have d_out: "?dists = map D is"
      unfolding np_take_def is_def using full args_lt by (simp add: comp_def)
    have idx_ok: "\<forall>i\<in>set ?idxs. 0 \<le> i \<and> i < int ?n"
    proof
      fix i assume "i \<in> set ?idxs"
      then obtain a where a: "a \<in> set ?args" "i = idxs' ! a" unfolding np_take_def by auto
      from full[OF args_lt[OF a(1)]] have "0 \<le> idxs' ! a" and "nat (idxs' ! a) < ?n"
        by blast+
      then show "0 \<le> i \<and> i < int ?n" using a(2) by arith
    qed
    have nat_take: "map nat ?idxs = is" by (simp add: np_take_def is_def comp_def)
    have "py_gather (captions s) ?idxs = Inr (map (\<lambda>i. captions s ! nat i) ?idxs)"
      using idx_ok assms(4) by (intro py_gather_nth) simp
    with cs(1) have "cs = map (\<lambda>i. captions s ! nat i) ?idxs" by simp
    also have "\<dots> = map (\<lambda>i. captions s ! i) (map nat ?idxs)" by (simp add: comp_def)
    finally have cs_eq: "cs = map (\<lambda>i. captions s ! i) is" by (simp only: nat_take)
    have "py_gather (frame_paths s) ?idxs = Inr (map (\<lambda>i. frame_paths s ! nat i) ?idxs)"
      using idx_ok assms(5) by (intro py_gather_nth) simp
    with ps(1) have "ps = map (\<lambda>i. frame_paths s ! nat i) ?idxs" by simp
    also have "\<dots> = map (\<lambda>i. frame_paths s ! i) (map nat ?idxs)" by (simp add: comp_def)
    finally have ps_eq: "ps = map (\<lambda>i. frame_paths s ! i) is" by (simp only: nat_take)
    have best: "\<forall>j<?n. j \<notin> set is \<longrightarrow> (\<forall>i\<in>set is. D i \<le> D j)"
    proof (intro allI impI ballI)
      fix j i assume j: "j < ?n" and nj: "j \<notin> set is" and i: "i \<in> set is"
      have "int j \<notin> set idxs'"
      proof
        assume "int j \<in> set idxs'"
        then obtain p where p: "p < ?K" "idxs' ! p = int j"
          by (auto simp: in_set_conv_nth li)
        then have "p \<in> set ?args" using args_set by simp
        then have "nat (idxs' ! p) \<in> set is" unfolding is_def by simp
        with p nj show False by simp
      qed
      with out j have le: "\<forall>x\<in>set ds'. x \<le> D j" by blast
      from i obtain a where a: "a \<in> set ?args" "i = nat (idxs' ! a)"
        unfolding is_def by auto
      from full[OF args_lt[OF a(1)]] a(2) have "ds' ! a = D i" by simp
      moreover have "ds' ! a \<in> set ds'" using args_lt[OF a(1)] ls by simp
      ultimately show "D i \<le> D j" using le by metis
    qed
    from len_is dist_is is_lt cs_eq ps_eq d_out best show ?thesis by blast
  qed
  show ?thesis
  proof (intro exI conjI)
    show "fst (query_knn_caption_brutal_force_euclidean_distance s query_feature k)
            = Inr (cs, ps, ?dists)" by (rule res)
    show "length cs = nat k" by (rule cs(2))
    show "length ps = nat k" by (rule ps(2))
    show "length ?dists = nat k" by (rule len(1))
    show "\<forall>d\<in>set ?dists. Finite 0 \<le> d" by (rule nn)
    show "sorted ?dists" by (rule srt)
    show "(\<forall>f\<in>set (features s). euclidean_distance query_feature f \<noteq> Infinity) \<longrightarrow>
            (\<exists>is. length is = nat k \<and> distinct is \<and> (\<forall>i\<in>set is. i < length (features s)) \<and>
               cs = map (\<lambda>i. captions s ! i) is \<and> ps = map (\<lambda>i. frame_paths s ! i) is \<and>
               ?dists = map (\<lambda>i. euclidean_distance query_feature (features s ! i)) is \<and>
               (\<forall>j<length (features s). j \<notin> set is \<longrightarrow>
                  (\<forall>i\<in>set is. euclidean_distance query_feature (features s ! i)
                               \<le> euclidean_distance query_feature (features s ! j))))"
      using nearest unfolding D_def by blast
  qed
qed

theorem euclidean_query_returns_k_nearest_witness:
  "features corpus_scenario \<noteq> [] \<and> (1 :: int) \<le> 2 \<and>
   2 \<le> int (length (features corpus_scenario)) \<and>
   length (captions corpus_scenario) = length (features corpus_scenario) \<and>
   length (frame_paths corpus_scenario) = length (features corpus_scenario) \<and>
   is_2d_array [[1, 0]] \<and>
   list_all (\<lambda>f. length f = length (hd [[1, 0 :: real]])) (features corpus_scenario) \<and>
   list_all (\<lambda>f. euclidean_distance [[1, 0]] f \<noteq> Infinity) (features corpus_scenario) \<and>
   fst (query_knn_caption_brutal_force_euclidean_distance corpus_scenario [[1, 0]] 2)
     = Inr ([''a'', ''c''], [''p'', ''r''], [Finite 0, Finite (sqrt (292849 / 500000))])"
proof -
  have q: "is_2d_array [[1, 0]]" by (simp add: is_2d_array_def)
  have h1: "features corpus_scenario \<noteq> []" by (simp add: corpus_scenario_def)
  have h2: "(1 :: int) \<le> 2" by simp
  have h3: "2 \<le> int (length (features corpus_scenario))" by (simp add: corpus_scenario_def)
  have h4: "length (captions corpus_scenario) = length (features corpus_scenario)"
    by (simp add: corpus_scenario_def)
  have h5: "length (frame_paths corpus_scenario) = length (features corpus_scenario)"
    by (simp add: corpus_scenario_def)
  have h7: "\<forall>f\<in>set (features corpus_scenario). length f = length (hd [[1, 0 :: real]])"
    by (simp add: corpus_scenario_def)
  have h8: "\<forall>f\<in>set (features corpus_scenario). euclidean_distance [[1, 0]] f \<noteq> Infinity"
    by (simp add: corpus_scenario_def euclidean_distance_def broadcast_sub_def
        np_linalg_norm_def sum_squares_def float_max_def)
  have run: "fst (query_knn_caption_brutal_force_euclidean_distance corpus_scenario [[1, 0]] 2)
     = Inr ([''a'', ''c''], [''p'', ''r''], [Finite 0, Finite (sqrt (292849 / 500000))])"
    by (simp add: corpus_scenario_def query_eval)
  from euclidean_query_returns_k_nearest[OF h1 h2 h3 h4 h5 q h7] h1 h3 h4 h5 q h7 h8 run
  show ?thesis by (simp add: list_all_iff)
qed

subsection \<open>Normalization is idempotent\<close>

lemma normalize_row_zero: "l2_norm v = 0 \<Longrightarrow> normalize_row v = v"
  by (simp add: normalize_row_def)

lemma normalize_row_unit: "l2_norm v = 1 \<Longrightarrow> normalize_row v = v"
  by (simp add: normalize_row_def)

lemma l2_norm_normalize_row:
  assumes nz: "l2_norm v \<noteq> 0"
  shows "l2_norm (normalize_row v) = 1"
proof -
  have sq: "l2_norm v * l2_norm v = sum_squares v"
    unfolding l2_norm_def using sum_squares_nonneg[of v] by simp
  from nz have ss: "sum_squares v \<noteq> 0" by (auto simp: l2_norm_def)
  have eq: "normalize_row v = map (\<lambda>x. x / l2_norm v) v"
    using nz by (simp add: normalize_row_def Let_def)
  have "sum_squares (normalize_row v) = sum_squares v / (l2_norm v * l2_norm v)"
    unfolding eq by (rule sum_squares_scaled)
  also have "\<dots> = sum_squares v / sum_squares v" by (simp only: sq)
  also have "\<dots> = 1" using ss by simp
  finally show ?thesis by (simp add: l2_norm_def)
qed

lemma normalize_row_idem: "normalize_row (normalize_row v) = normalize_row v"
proof (cases "l2_norm v = 0")
  case True
  then show ?thesis by (simp add: normalize_row_zero)
next
  case False
  then have "l2_norm (normalize_row v) = 1" by (rule l2_norm_normalize_row)
  then show ?thesis by (rule normalize_row_unit)
qed

lemma is_2d_array_normalized:
  assumes "is_2d_array X"
  shows "is_2d_array (map normalize_row X)"
proof (cases X)
  case Nil
  with assms show ?thesis by (simp add: is_2d_array_Nil)
next
  case (Cons r rs)
  with assms have r: "r \<noteq> []" and rows: "\<forall>x\<in>set rs. length x = length r"
    by (simp_all add: is_2d_array_Cons)
  have "normalize_row r \<noteq> []" using r by (simp add: normalize_row_eq_Nil)
  moreover have "\<forall>x\<in>set (map normalize_row rs). length x = length (normalize_row r)"
    using rows by (auto simp: length_normalize_row)
  ultimately have "is_2d_array (normalize_row r # map normalize_row rs)"
    unfolding is_2d_array_Cons by blast
  then show ?thesis by (simp add: Cons)
qed

text \<open>What \<^verbatim>\<open>normalize_features\<close> leaves behind is a corpus as the cosine query wants
  it: every vector has norm at most one.\<close>

lemma normalize_features_norms:
  assumes "normalize_features s = (None, s')"
  shows "\<forall>f\<in>set (features s'). l2_norm f \<le> 1"
proof -
  from assms have "features s' = map normalize_row (features s)"
    by (auto simp: normalize_features_def normalize_def split: if_splits)
  then show ?thesis
    using sum_squares_normalize_row by (auto simp: sum_squares_le_1_iff[symmetric])
qed

text \<open>
  C9. In exact arithmetic \<^verbatim>\<open>normalize_features\<close> is idempotent: a second call returns
  what the first returned and leaves its state, and a corpus whose vectors have norm one is
  left as it is. Rounding is outside the embedding.
\<close>

theorem normalize_features_idempotent:
  "normalize_features (snd (normalize_features s)) = normalize_features s \<and>
   (is_2d_array (features s) \<and> (\<forall>f\<in>set (features s). l2_norm f = 1)
      \<longrightarrow> normalize_features s = (None, s))"
proof (cases "is_2d_array (features s)")
  case False
  then show ?thesis by (simp add: normalize_features_def normalize_def)
next
  case True
  have again: "map (normalize_row \<circ> normalize_row) (features s) = map normalize_row (features s)"
    by (simp add: normalize_row_idem)
  have twice: "normalize_features (snd (normalize_features s)) = normalize_features s"
    using True is_2d_array_normalized[OF True]
    by (simp add: normalize_features_def normalize_def again)
  have unit: "normalize_features s = (None, s)" if "\<forall>f\<in>set (features s). l2_norm f = 1"
  proof -
    from that have "map normalize_row (features s) = features s"
      by (simp add: map_idI normalize_row_unit)
    with True show ?thesis by (simp add: normalize_features_def normalize_def)
  qed
  from twice unit show ?thesis by blast
qed

theorem normalize_features_idempotent_witness:
  "is_2d_array (features corpus_opposite) \<and>
   list_all (\<lambda>f. l2_norm f = 1) (features corpus_opposite) \<and>
   normalize_features corpus_opposite = (None, corpus_opposite) \<and>
   normalize_features (snd (normalize_features corpus_raw)) = normalize_features corpus_raw \<and>
   features (snd (normalize_features corpus_raw)) = [[1, 0]]"
proof -
  have h1: "is_2d_array (features corpus_opposite)"
    by (simp add: corpus_opposite_def init_def is_2d_array_def)
  have h2: "\<forall>f\<in>set (features corpus_opposite). l2_norm f = 1"
    by (simp add: corpus_opposite_def init_def l2_norm_def sum_squares_def)
  have r: "features (snd (normalize_features corpus_raw)) = [[1, 0]]"
    by (simp add: corpus_raw_def init_def normalize_features_def normalize_def is_2d_array_def
        normalize_row_def l2_norm_def sum_squares_def)
  from normalize_features_idempotent[of corpus_opposite]
    normalize_features_idempotent[of corpus_raw] h1 h2 r
  show ?thesis by (simp add: list_all_iff)
qed

subsection \<open>What the queries do with an invalid request\<close>

lemma normalize_error: "normalize X = Inl e \<Longrightarrow> e = ValueError"
  by (simp add: normalize_def split: if_splits)

lemma broadcast_sub_error: "broadcast_sub a b = Inl e \<Longrightarrow> e = ValueError"
  by (simp add: broadcast_sub_def split: if_splits)

lemma np_sub_error: "np_sub a Q = Inl e \<Longrightarrow> e = ValueError"
  by (induction Q) (auto split: sum.splits dest: broadcast_sub_error)

lemma cosine_scan_empty_working_set:
  "cosine_scan q (p # rs) ([], idxs) = Inl ValueError \<or>
   cosine_scan q (p # rs) ([], idxs) = Inl AssertionError"
  by (cases p) (simp add: np_dot_def np_argmin_def)

lemma euclidean_scan_empty_working_set:
  "euclidean_scan Q (p # rs) ([], idxs) = Inl ValueError"
proof -
  obtain i f where p: "p = (i, f)" by (cases p)
  show ?thesis
  proof (cases "np_sub f Q")
    case (Inl e)
    with np_sub_error[OF Inl] p show ?thesis by simp
  next
    case (Inr M)
    with p show ?thesis by (simp add: np_argmax_def Let_def)
  qed
qed

lemma enumerate_nonempty: "xs \<noteq> [] \<Longrightarrow> \<exists>p rs. enumerate 0 xs = p # rs"
  by (cases xs) simp_all

lemma cosine_query_k_below_1:
  assumes "k < 1" and "features s \<noteq> []"
  shows "fst (query_knn_caption_brutal_force_cosine_similarity s q k) = Inl ValueError \<or>
         fst (query_knn_caption_brutal_force_cosine_similarity s q k) = Inl AssertionError"
proof (cases "normalize q")
  case (Inl e)
  with normalize_error[OF Inl] show ?thesis
    by (simp add: query_knn_caption_brutal_force_cosine_similarity_def)
next
  case (Inr N)
  from enumerate_nonempty[OF assms(2)] obtain p rs where e: "enumerate 0 (features s) = p # rs"
    by blast
  from assms(1) have k: "nat k = 0" by simp
  from cosine_scan_empty_working_set[of "hd N" p rs "[]"] Inr show ?thesis
    by (auto simp: query_knn_caption_brutal_force_cosine_similarity_def e k)
qed

lemma euclidean_query_k_below_1:
  assumes "k < 1" and "features s \<noteq> []"
  shows "fst (query_knn_caption_brutal_force_euclidean_distance s q k) = Inl ValueError"
proof -
  from enumerate_nonempty[OF assms(2)] obtain p rs where e: "enumerate 0 (features s) = p # rs"
    by blast
  from assms(1) have k: "nat k = 0" by simp
  show ?thesis
    by (simp add: query_knn_caption_brutal_force_euclidean_distance_def e k
        euclidean_scan_empty_working_set)
qed

lemma cosine_query_wrong_dimension:
  assumes "features s \<noteq> []" and "is_2d_array q"
    and "length (hd q) \<noteq> length (hd (features s))"
  shows "fst (query_knn_caption_brutal_force_cosine_similarity s q k) = Inl ValueError"
proof -
  from assms(1) obtain f fs where fs: "features s = f # fs" by (cases "features s") auto
  from assms(2) have ne: "q \<noteq> []" using is_2d_array_Nil by blast
  have hdq: "hd (map normalize_row q) = normalize_row (hd q)" using ne by (simp add: hd_map)
  have "np_dot f (normalize_row (hd q)) = Inl ValueError"
    using assms(3) fs by (simp add: np_dot_def length_normalize_row)
  then show ?thesis
    using assms(2)
    by (simp add: query_knn_caption_brutal_force_cosine_similarity_def normalize_def fs hdq)
qed

lemma euclidean_query_wrong_dimension:
  assumes "features s \<noteq> []" and "is_2d_array q"
    and "length (hd q) \<noteq> length (hd (features s))"
    and "length (hd q) \<noteq> 1" and "length (hd (features s)) \<noteq> 1"
  shows "fst (query_knn_caption_brutal_force_euclidean_distance s q k) = Inl ValueError"
proof -
  from assms(1) obtain f fs where fs: "features s = f # fs" by (cases "features s") auto
  from assms(2) obtain r rs where q: "q = r # rs" using is_2d_array_Nil by (cases q) auto
  have "broadcast_sub f r = Inl ValueError"
    using assms(3,4,5) fs q by (simp add: broadcast_sub_def)
  then have "np_sub f q = Inl ValueError" by (simp add: q)
  then show ?thesis
    by (simp add: query_knn_caption_brutal_force_euclidean_distance_def fs)
qed

lemma cosine_query_empty_corpus_k_below_1:
  assumes "k < 1" and "features s = []"
  shows "fst (query_knn_caption_brutal_force_cosine_similarity s q k)
           = (if is_2d_array q then Inr ([], [], []) else Inl ValueError)"
proof -
  from assms(1) have k: "nat k = 0" by simp
  show ?thesis
    by (simp add: query_knn_caption_brutal_force_cosine_similarity_def normalize_def assms(2) k
        np_argsort_def np_take_def)
qed

lemma euclidean_query_empty_corpus_k_below_1:
  assumes "k < 1" and "features s = []"
  shows "fst (query_knn_caption_brutal_force_euclidean_distance s q k) = Inr ([], [], [])"
proof -
  from assms(1) have k: "nat k = 0" by simp
  show ?thesis
    by (simp add: query_knn_caption_brutal_force_euclidean_distance_def assms(2) k
        np_argsort_def np_take_def)
qed

text \<open>
  C6, as amended. Neither query checks its arguments before the scan, and no exception of the
  code is an invalid-query error. A request is refused by what the scan runs into:
  \<^item> with \<open>k < 1\<close> and a non-empty corpus, the first record raises: the Euclidean query
    \<open>ValueError\<close> (the shapes, or the arg-max of an empty working set), the cosine query
    \<open>ValueError\<close> or the \<open>AssertionError\<close> of its bounds;
  \<^item> on a non-empty corpus, a query array whose dimension is not that of the first record
    raises \<open>ValueError\<close> at that record: always in the cosine query, in the Euclidean
    query when neither dimension is one.

  And a request is not refused
  \<^item> with \<open>k < 1\<close> and an empty corpus: the Euclidean query returns an empty answer, and
    so does the cosine query when the query is a 2-d array (it raises \<open>ValueError\<close>
    otherwise).
\<close>

theorem queries_do_not_validate:
  "(k < 1 \<and> features s \<noteq> [] \<longrightarrow>
      (fst (query_knn_caption_brutal_force_cosine_similarity s q k) = Inl ValueError \<or>
       fst (query_knn_caption_brutal_force_cosine_similarity s q k) = Inl AssertionError) \<and>
      fst (query_knn_caption_brutal_force_euclidean_distance s q k) = Inl ValueError) \<and>
   (features s \<noteq> [] \<and> is_2d_array q \<and> length (hd q) \<noteq> length (hd (features s)) \<longrightarrow>
      fst (query_knn_caption_brutal_force_cosine_similarity s q k) = Inl ValueError \<and>
      (length (hd q) \<noteq> 1 \<and> length (hd (features s)) \<noteq> 1 \<longrightarrow>
         fst (query_knn_caption_brutal_force_euclidean_distance s q k) = Inl ValueError)) \<and>
   (k < 1 \<and> features s = [] \<longrightarrow>
      fst (query_knn_caption_brutal_force_euclidean_distance s q k) = Inr ([], [], []) \<and>
      fst (query_knn_caption_brutal_force_cosine_similarity s q k)
        = (if is_2d_array q then Inr ([], [], []) else Inl ValueError))"
  using cosine_query_k_below_1[of k s q] euclidean_query_k_below_1[of k s q]
    cosine_query_wrong_dimension[of s q k] euclidean_query_wrong_dimension[of s q k]
    cosine_query_empty_corpus_k_below_1[of k s q] euclidean_query_empty_corpus_k_below_1[of k s q]
  by blast

theorem queries_do_not_validate_witness:
  "((0 :: int) < 1 \<and> features corpus_one \<noteq> [] \<and>
      fst (query_knn_caption_brutal_force_cosine_similarity corpus_one [[1, 0]] 0)
        = Inl ValueError \<and>
      fst (query_knn_caption_brutal_force_cosine_similarity corpus_raw [[1, 0]] 0)
        = Inl AssertionError \<and>
      fst (query_knn_caption_brutal_force_euclidean_distance corpus_one [[1, 0]] 0)
        = Inl ValueError) \<and>
   (is_2d_array [[1, 0, 0]] \<and>
      length (hd [[1, 0, 0 :: real]]) \<noteq> length (hd (features corpus_one)) \<and>
      length (hd [[1, 0, 0 :: real]]) \<noteq> 1 \<and> length (hd (features corpus_one)) \<noteq> 1 \<and>
      fst (query_knn_caption_brutal_force_cosine_similarity corpus_one [[1, 0, 0]] 1)
        = Inl ValueError \<and>
      fst (query_knn_caption_brutal_force_euclidean_distance corpus_one [[1, 0, 0]] 1)
        = Inl ValueError) \<and>
   (features init = [] \<and> is_2d_array [[1, 0]] \<and>
      fst (query_knn_caption_brutal_force_euclidean_distance init [[1, 0]] 0) = Inr ([], [], []) \<and>
      fst (query_knn_caption_brutal_force_cosine_similarity init [[1, 0]] 0) = Inr ([], [], []) \<and>
      fst (query_knn_caption_brutal_force_cosine_similarity init [] 0) = Inl ValueError)"
proof -
  have c1: "features corpus_one \<noteq> []" "length (hd (features corpus_one)) = 2"
    by (simp_all add: corpus_one_def init_def)
  have i: "features init = []" by (simp add: init_def)
  have q2: "is_2d_array [[1, 0]]" and q3: "is_2d_array [[1, 0, 0]]" and q0: "\<not> is_2d_array []"
    by (simp_all add: is_2d_array_def)
  have a: "fst (query_knn_caption_brutal_force_cosine_similarity corpus_one [[1, 0]] 0)
             = Inl ValueError"
    and b: "fst (query_knn_caption_brutal_force_cosine_similarity corpus_raw [[1, 0]] 0)
             = Inl AssertionError"
    by (simp_all add: corpus_one_def corpus_raw_def query_eval)
  from queries_do_not_validate[of 0 corpus_one "[[1, 0]]"]
    queries_do_not_validate[of 1 corpus_one "[[1, 0, 0]]"]
    queries_do_not_validate[of 0 init "[[1, 0]]"]
    queries_do_not_validate[of 0 init "[]"]
    c1 i q2 q3 q0 a b
  show ?thesis by simp
qed

text \<open>The claim as it is stated fails: on an empty corpus with \<open>k = 0\<close> both queries
  return, and a Euclidean query of dimension one against a corpus of dimension two is
  broadcast and answered.\<close>

theorem queries_do_not_validate_counterexample:
  "features init = [] \<and> (0 :: int) < 1 \<and>
   fst (query_knn_caption_brutal_force_cosine_similarity init [[1, 0]] 0) = Inr ([], [], []) \<and>
   fst (query_knn_caption_brutal_force_euclidean_distance init [[1, 0]] 0) = Inr ([], [], []) \<and>
   length (hd [[5 :: real]]) \<noteq> length (hd (features corpus_one)) \<and>
   fst (query_knn_caption_brutal_force_euclidean_distance corpus_one [[5]] 1)
     = Inr ([''a''], [''p''], [Finite (sqrt 41)])"
  by (simp add: corpus_one_def query_eval)

end
